theory Spec2Isabelle
  imports Main
begin

section \<open>Bytes and buffers\<close>

text \<open>
  The source text is a buffer of bytes (C \<open>char\<close>); a byte is a \<^typ>\<open>char\<close>, a buffer a
  \<^typ>\<open>string\<close>. Every comparison of the sources between a \<open>char\<close> and a character
  literal is against an ASCII range, so it has the same outcome whether the platform's
  \<open>char\<close> is signed or not; the model compares the numeric values of the bytes.
\<close>

abbreviation byte :: "char \<Rightarrow> nat" where
  "byte c \<equiv> of_char c"

abbreviation NUL :: char where "NUL \<equiv> CHR 0x00"
abbreviation BACKSLASH :: char where "BACKSLASH \<equiv> CHR 0x5C"
abbreviation NEWLINE :: char where "NEWLINE \<equiv> CHR 0x0A"
abbreviation DQUOTE :: char where "DQUOTE \<equiv> CHR 0x22"
abbreviation SQUOTE :: char where "SQUOTE \<equiv> CHR 0x27"
abbreviation BACKTICK :: char where "BACKTICK \<equiv> CHR 0x60"

text \<open>
  \<open>rd buf i\<close> is the read \<open>*(p + i)\<close> through a \<open>const char*\<close> into the buffer. The
  byte one past the buffer is the terminating NUL of the \<open>std::string\<close> the buffer comes
  from; a read further out has no defined value in C++ and reads as NUL here too.
\<close>

definition rd :: "string \<Rightarrow> nat \<Rightarrow> char" where
  "rd buf i = (if i < length buf then buf ! i else NUL)"

section \<open>Token.h: the escape decoder\<close>

definition isHexDigit :: "char \<Rightarrow> bool" where
  "isHexDigit c =
     ((byte CHR ''0'' \<le> byte c \<and> byte c \<le> byte CHR ''9'') \<or>
      (byte CHR ''a'' \<le> byte c \<and> byte c \<le> byte CHR ''f'') \<or>
      (byte CHR ''A'' \<le> byte c \<and> byte c \<le> byte CHR ''F''))"

definition hexValue :: "char \<Rightarrow> nat" where
  "hexValue c =
     (if byte CHR ''0'' \<le> byte c \<and> byte c \<le> byte CHR ''9'' then byte c - byte CHR ''0''
      else if byte CHR ''a'' \<le> byte c \<and> byte c \<le> byte CHR ''f'' then byte c - byte CHR ''a'' + 10
      else if byte CHR ''A'' \<le> byte c \<and> byte c \<le> byte CHR ''F'' then byte c - byte CHR ''A'' + 10
      else 0)"

definition isOctalDigit :: "char \<Rightarrow> bool" where
  "isOctalDigit ch = (byte CHR ''0'' \<le> byte ch \<and> byte ch \<le> byte CHR ''7'')"

text \<open>
  The digit loop of \<open>parseOctal\<close>: \<open>for (; it != end; ++it)\<close> with \<open>end = it + 3\<close>. The
  iterator starts three below \<open>end\<close> and moves up by one, so \<open>it != end\<close> is \<open>it < end\<close>.
  \<open>result\<close> is an \<open>unsigned char\<close>: the assignment keeps the low eight bits.
\<close>

function parseOctal_loop :: "string \<Rightarrow> nat \<Rightarrow> nat \<Rightarrow> nat \<Rightarrow> nat \<times> nat" where
  "parseOctal_loop buf it e result =
     (if it < e then
        (let ch = rd buf it in
         if isOctalDigit ch
         then parseOctal_loop buf (it + 1) e ((8 * result + byte ch - byte CHR ''0'') mod 256)
         else (it, result))
      else (it, result))"
  by pat_completeness auto
termination
  by (relation "measure (\<lambda>(buf, it, e, result). e - it)") auto

declare parseOctal_loop.simps [simp del]

text \<open>
  The parsers take the iterator \<open>it\<close> and the output written so far; \<open>None\<close> is the
  return value \<open>false\<close>, which leaves both untouched; \<open>Some (it', output')\<close> is \<open>true\<close>
  with the iterator and the output as the call leaves them.
\<close>

definition parseOctal :: "string \<Rightarrow> nat \<Rightarrow> string \<Rightarrow> (nat \<times> string) option" where
  "parseOctal buf it output =
     (if rd buf it \<noteq> BACKSLASH then None
      else
        (let lookahead = rd buf (it + 1) in
         if byte lookahead < byte CHR ''0'' \<or> byte lookahead > byte CHR ''7'' then None
         else
           (let (it', result) = parseOctal_loop buf (it + 1) (it + 1 + 3) 0
            in Some (it', output @ [char_of result]))))"

text \<open>
  The digit loop of \<open>parseHex\<close>, \<open>for (; it != end; ++it)\<close> with \<open>end = it + 2\<close>
  (again \<open>it != end\<close> is \<open>it < end\<close>): it leaves the loop when \<open>hexValue(*it)\<close>
  is 0. \<open>value\<close> is an \<open>unsigned char\<close>.
\<close>

function parseHex_loop :: "string \<Rightarrow> nat \<Rightarrow> nat \<Rightarrow> nat \<Rightarrow> nat \<times> nat" where
  "parseHex_loop buf it e val =
     (if it < e then
        (let result = hexValue (rd buf it) in
         if result = 0 then (it, val)
         else parseHex_loop buf (it + 1) e ((16 * val + result) mod 256))
      else (it, val))"
  by pat_completeness auto
termination
  by (relation "measure (\<lambda>(buf, it, e, val). e - it)") auto

declare parseHex_loop.simps [simp del]

definition parseHex :: "string \<Rightarrow> nat \<Rightarrow> string \<Rightarrow> (nat \<times> string) option" where
  "parseHex buf it output =
     (if rd buf it \<noteq> BACKSLASH then None
      else if rd buf (it + 1) \<noteq> CHR ''x'' then None
      else if \<not> isHexDigit (rd buf (it + 2)) then None
      else
        (let (it', val) = parseHex_loop buf (it + 2) (it + 2 + 2) 0
         in Some (it', output @ [char_of val])))"

text \<open>
  The digit loop of \<open>parseUnicode\<close>, \<open>for (; clone != end; ++clone)\<close> with
  \<open>end = clone + size\<close>. The value is accumulated in a \<open>wchar_t\<close>, whose
  width and sign are the platform's; the model accumulates the number itself and hands it to
  the conversion below.
\<close>

function parseUnicode_loop :: "string \<Rightarrow> nat \<Rightarrow> nat \<Rightarrow> nat \<Rightarrow> nat \<times> nat" where
  "parseUnicode_loop buf clone e val =
     (if clone < e then
        (if \<not> isHexDigit (rd buf clone) then (clone, val)
         else parseUnicode_loop buf (clone + 1) e (16 * val + hexValue (rd buf clone)))
      else (clone, val))"
  by pat_completeness auto
termination
  by (relation "measure (\<lambda>(buf, clone, e, val). e - clone)") auto

declare parseUnicode_loop.simps [simp del]

text \<open>
  \<open>wcrtomb\<close> is the C library's conversion of a wide character to the multibyte encoding
  of the current locale. It is a parameter of the decoder: \<open>wc v\<close> is \<open>None\<close> when the
  call returns -1, and otherwise the bytes it writes.
\<close>

type_synonym wcrtomb = "nat \<Rightarrow> string option"

definition parseUnicode :: "wcrtomb \<Rightarrow> string \<Rightarrow> nat \<Rightarrow> string \<Rightarrow> (nat \<times> string) option" where
  "parseUnicode wc buf it output =
     (if rd buf it \<noteq> BACKSLASH then None
      else
        (let lookahead = rd buf (it + 1) in
         if lookahead \<noteq> CHR ''u'' \<and> lookahead \<noteq> CHR ''U'' then None
         else
           (let size = (if lookahead = CHR ''u'' then 4 else 8 :: nat);
                clone = it + 2;
                delimited = (rd buf clone = CHR ''{'');
                clone = clone + (if delimited then 1 else 0)
            in if \<not> isHexDigit (rd buf clone) then None
               else
                 (let (clone, val) = parseUnicode_loop buf clone (clone + size) 0
                  in if delimited \<and> rd buf clone \<noteq> CHR ''}'' then None
                     else
                       (let clone = clone + (if delimited then 1 else 0)
                        in case wc val of
                             None \<Rightarrow> None
                           | Some bytes \<Rightarrow> Some (clone, output @ bytes))))))"

text \<open>The \<open>switch\<close> of \<open>stringValue\<close> on the byte after a backslash.\<close>

definition escapeChar :: "char \<Rightarrow> char" where
  "escapeChar c =
     (if c = CHR ''a'' then CHR 0x07
      else if c = CHR ''b'' then CHR 0x08
      else if c = CHR ''f'' then CHR 0x0C
      else if c = CHR ''n'' then CHR 0x0A
      else if c = CHR ''r'' then CHR 0x0D
      else if c = CHR ''t'' then CHR 0x09
      else if c = CHR ''v'' then CHR 0x0B
      else if c = BACKSLASH then BACKSLASH
      else c)"

text \<open>
  One turn of the \<open>while (it < end)\<close> loop of \<open>stringValue\<close> at a backslash: the three
  parsers in the order of the \<open>||\<close> chain, then the \<open>switch\<close>.
\<close>

definition stringValue_escape :: "wcrtomb \<Rightarrow> string \<Rightarrow> nat \<Rightarrow> string \<Rightarrow> nat \<times> string" where
  "stringValue_escape wc buf it output =
     (case parseOctal buf it output of
        Some r \<Rightarrow> r
      | None \<Rightarrow>
          (case parseHex buf it output of
             Some r \<Rightarrow> r
           | None \<Rightarrow>
               (case parseUnicode wc buf it output of
                  Some r \<Rightarrow> r
                | None \<Rightarrow> (it + 2, output @ [escapeChar (rd buf (it + 1))]))))"

lemma parseOctal_loop_ge: "parseOctal_loop buf it e result = (it', r) \<Longrightarrow> it \<le> it'"
proof (induction buf it e result rule: parseOctal_loop.induct)
  case (1 buf it e result)
  show ?case
  proof (cases "it < e \<and> isOctalDigit (rd buf it)")
    case True
    with "1.prems" have "parseOctal_loop buf (it + 1) e
        ((8 * result + byte (rd buf it) - byte CHR ''0'') mod 256) = (it', r)"
      by (subst (asm) parseOctal_loop.simps) simp
    with "1.IH" True have "it + 1 \<le> it'" by simp
    then show ?thesis by simp
  next
    case False
    with "1.prems" show ?thesis
      by (subst (asm) parseOctal_loop.simps) (auto simp: Let_def split: if_splits)
  qed
qed

lemma parseHex_loop_ge: "parseHex_loop buf it e val = (it', v) \<Longrightarrow> it \<le> it'"
proof (induction buf it e val rule: parseHex_loop.induct)
  case (1 buf it e val)
  show ?case
  proof (cases "it < e \<and> hexValue (rd buf it) \<noteq> 0")
    case True
    with "1.prems" have "parseHex_loop buf (it + 1) e
        ((16 * val + hexValue (rd buf it)) mod 256) = (it', v)"
      by (subst (asm) parseHex_loop.simps) simp
    with "1.IH" True have "it + 1 \<le> it'" by simp
    then show ?thesis by simp
  next
    case False
    with "1.prems" show ?thesis
      by (subst (asm) parseHex_loop.simps) (auto simp: Let_def split: if_splits)
  qed
qed

lemma parseUnicode_loop_ge: "parseUnicode_loop buf it e val = (it', v) \<Longrightarrow> it \<le> it'"
proof (induction buf it e val rule: parseUnicode_loop.induct)
  case (1 buf it e val)
  show ?case
  proof (cases "it < e \<and> isHexDigit (rd buf it)")
    case True
    with "1.prems" have "parseUnicode_loop buf (it + 1) e
        (16 * val + hexValue (rd buf it)) = (it', v)"
      by (subst (asm) parseUnicode_loop.simps) simp
    with "1.IH" True have "it + 1 \<le> it'" by simp
    then show ?thesis by simp
  next
    case False
    with "1.prems" show ?thesis
      by (subst (asm) parseUnicode_loop.simps) (auto split: if_splits)
  qed
qed

lemma parseOctal_advances: "parseOctal buf it output = Some (it', output') \<Longrightarrow> it < it'"
  by (auto simp: parseOctal_def Let_def split: if_splits prod.splits
           dest!: parseOctal_loop_ge)

lemma parseHex_advances: "parseHex buf it output = Some (it', output') \<Longrightarrow> it < it'"
  by (auto simp: parseHex_def Let_def split: if_splits prod.splits
           dest!: parseHex_loop_ge)

lemma parseUnicode_advances:
  "parseUnicode wc buf it output = Some (it', output') \<Longrightarrow> it < it'"
  by (auto simp: parseUnicode_def Let_def split: if_splits prod.splits option.splits
           dest!: parseUnicode_loop_ge)

lemma stringValue_escape_advances:
  "stringValue_escape wc buf it output = (it', output') \<Longrightarrow> it < it'"
  by (auto simp: stringValue_escape_def split: option.splits
           dest: parseOctal_advances parseHex_advances parseUnicode_advances)

text \<open>
  The \<open>while (it < end)\<close> loop of \<open>stringValue(begin, end)\<close>; \<open>output\<close> is what has
  been written to the buffer so far.
\<close>

function stringValue_loop :: "wcrtomb \<Rightarrow> string \<Rightarrow> nat \<Rightarrow> nat \<Rightarrow> string \<Rightarrow> string" where
  "stringValue_loop wc buf it e output =
     (if it < e then
        (if rd buf it = BACKSLASH
         then (case stringValue_escape wc buf it output of
                 (it', output') \<Rightarrow> stringValue_loop wc buf it' e output')
         else stringValue_loop wc buf (it + 1) e (output @ [rd buf it]))
      else output)"
  by pat_completeness auto
termination
  by (relation "measure (\<lambda>(wc, buf, it, e, out). e - it)")
     (auto dest!: stringValue_escape_advances [OF sym])

declare stringValue_loop.simps [simp del]

text \<open>
  \<open>stringValue(begin, end)\<close>. After the loop the code writes a NUL to the buffer,
  advances \<open>output\<close> past it, and builds the result from the \<open>output - buffer\<close> bytes
  written. (For \<open>end\<close> below \<open>begin\<close> the source's size computation wraps; the callers
  below never ask for that.)
\<close>

definition stringValue :: "wcrtomb \<Rightarrow> string \<Rightarrow> nat \<Rightarrow> nat \<Rightarrow> string" where
  "stringValue wc buf begin end =
     (if begin = end then []
      else stringValue_loop wc buf begin end [] @ [NUL])"

section \<open>Token.h: tokens\<close>

text \<open>
  The token kinds that the sources name. Their declaration (\<open>Registration.h\<close>, which gives
  each kind its bit pattern) is not among the sources at hand; the scanner only stores kinds
  and compares them for equality, so a kind is a constructor here. \<open>OTHER k\<close> stands for
  the kinds the sources at hand never name (the keywords), by their numeric value.
\<close>

datatype (plugins only: code) TokenType =
    INVALID | END | EMPTY | MISSING | SEMI | COMMA | SYMBOL | COMMENT | WHITESPACE
  | STRING | NUMBER | ERR
  | LBRACE | RBRACE | LPAREN | RPAREN | LBRACKET | RBRACKET | LDBRACKET | RDBRACKET
  | OPERATOR_ASSIGN_LEFT | OPERATOR_LESS_OR_EQUAL | OPERATOR_ASSIGN_LEFT_PARENT
  | OPERATOR_LESS | OPERATOR_GREATER_OR_EQUAL | OPERATOR_GREATER | OPERATOR_EQUAL
  | OPERATOR_ASSIGN_LEFT_EQUALS | OPERATOR_OR_SCALAR | OPERATOR_OR_VECTOR
  | OPERATOR_AND_SCALAR | OPERATOR_AND_VECTOR | OPERATOR_EXPONENTATION_STARS
  | OPERATOR_MULTIPLY | OPERATOR_NAMESPACE_ALL | OPERATOR_NAMESPACE_EXPORTS
  | OPERATOR_ASSIGN_LEFT_COLON | OPERATOR_SEQUENCE | OPERATOR_NOT_EQUAL
  | OPERATOR_NEGATION | OPERATOR_ASSIGN_RIGHT_PARENT | OPERATOR_ASSIGN_RIGHT
  | OPERATOR_MINUS | OPERATOR_PLUS | OPERATOR_FORMULA | OPERATOR_HELP | OPERATOR_DIVIDE
  | OPERATOR_AT | OPERATOR_DOLLAR | OPERATOR_HAT | OPERATOR_USER
  | OTHER nat

record Position =
  row :: nat
  column :: nat

text \<open>
  Modelled from the spec: \<open>collections::Position\<close> (\<open>Position.h\<close> is not among the
  sources at hand). The spec gives it the two fields above; a default-constructed position,
  as in a token built from a kind alone, is taken to be the origin.
\<close>

definition Position0 :: Position where
  "Position0 = \<lparr>row = 0, column = 0\<rparr>"

text \<open>
  A token is a span of the source buffer. The fields are the members \<open>begin_\<close>,
  \<open>end_\<close>, \<open>position_\<close> and \<open>type_\<close> of the class; the two pointers into the
  buffer are offsets from its first byte, and \<open>None\<close> is \<open>nullptr\<close>.
\<close>

record Token =
  tok_begin :: "nat option"
  tok_end :: "nat option"
  tok_position :: Position
  tok_type :: TokenType

text \<open>\<open>explicit Token(TokenType type)\<close>\<close>

definition Token_of_type :: "TokenType \<Rightarrow> Token" where
  "Token_of_type t = \<lparr>tok_begin = None, tok_end = None, tok_position = Position0, tok_type = t\<rparr>"

text \<open>\<open>size()\<close> is \<open>end_ - begin_\<close>; two null pointers are zero apart.\<close>

definition size_tok :: "Token \<Rightarrow> nat" where
  "size_tok t =
     (case (tok_begin t, tok_end t) of
        (Some b, Some e) \<Rightarrow> e - b
      | _ \<Rightarrow> 0)"

text \<open>
  \<open>contents()\<close> is \<open>std::string(begin_, end_)\<close>: the bytes of the span, read from the
  buffer the token points into.
\<close>

definition contents :: "string \<Rightarrow> Token \<Rightarrow> string" where
  "contents buf t =
     (case (tok_begin t, tok_end t) of
        (Some b, Some e) \<Rightarrow> map (rd buf) [b..<e]
      | _ \<Rightarrow> [])"

text \<open>
  \<open>stringValue(const Token&)\<close>. A \<open>STRING\<close>, and a \<open>SYMBOL\<close> whose first byte is a
  backtick, is decoded between \<open>begin + 1\<close> and \<open>end - 1\<close>; every other token (the
  \<open>SYMBOL\<close> case falls through to \<open>default\<close>) between \<open>begin\<close> and \<open>end\<close>. The
  result is \<open>None\<close> where the call has no defined behaviour: pointer arithmetic on, or a
  read through, a null pointer, and a span that ends before it begins.
\<close>

definition stringValue_token :: "wcrtomb \<Rightarrow> string \<Rightarrow> Token \<Rightarrow> string option" where
  "stringValue_token wc buf token =
     (case (tok_begin token, tok_end token) of
        (Some b, Some e) \<Rightarrow>
          if tok_type token = STRING \<or> (tok_type token = SYMBOL \<and> rd buf b = BACKTICK)
          then (if b + 2 \<le> e then Some (stringValue wc buf (b + 1) (e - 1)) else None)
          else (if b \<le> e then Some (stringValue wc buf b e) else None)
      | (None, None) \<Rightarrow>
          if tok_type token = STRING \<or> tok_type token = SYMBOL then None
          else Some (stringValue wc buf 0 0)
      | _ \<Rightarrow> None)"

section \<open>The text cursor\<close>

text \<open>
  Modelled from the spec: \<open>cursors::TextCursor\<close> (\<open>TextCursor.h\<close> is not among the
  sources at hand). The spec gives the cursor a view of the byte buffer, a byte offset and
  the row and column of that offset, and the operations \<open>peek(offset)\<close>, which returns a
  defined sentinel past the end of input, \<open>advance(n)\<close>, \<open>offset()\<close>, \<open>begin()\<close>,
  \<open>position()\<close> and the comparisons with \<open>end()\<close>. The sentinel is NUL (the scanner
  tests \<open>peek != '\0'\<close>); rows and columns count from zero, and a newline byte ends a row.
  \<open>cur_text\<close> is the buffer, whose length is the \<open>n\<close> the cursor is built with.
\<close>

record TextCursor =
  cur_text :: string
  cur_offset :: nat
  cur_position :: Position

definition TextCursor_init :: "string \<Rightarrow> TextCursor" where
  "TextCursor_init code = \<lparr>cur_text = code, cur_offset = 0, cur_position = Position0\<rparr>"

definition peek :: "TextCursor \<Rightarrow> nat \<Rightarrow> char" where
  "peek c k =
     (let index = cur_offset c + k
      in if index < length (cur_text c) then cur_text c ! index else NUL)"

definition advance1 :: "TextCursor \<Rightarrow> TextCursor" where
  "advance1 c =
     c\<lparr>cur_offset := cur_offset c + 1,
       cur_position :=
         (if peek c 0 = NEWLINE
          then \<lparr>row = row (cur_position c) + 1, column = 0\<rparr>
          else \<lparr>row = row (cur_position c), column = column (cur_position c) + 1\<rparr>)\<rparr>"

primrec advance :: "nat \<Rightarrow> TextCursor \<Rightarrow> TextCursor" where
  "advance 0 c = c"
| "advance (Suc n) c = advance n (advance1 c)"

text \<open>\<open>cursor != cursor.end()\<close> and \<open>cursor >= cursor.end()\<close>\<close>

definition not_at_end :: "TextCursor \<Rightarrow> bool" where
  "not_at_end c = (cur_offset c \<noteq> length (cur_text c))"

definition at_or_past_end :: "TextCursor \<Rightarrow> bool" where
  "at_or_past_end c = (cur_offset c \<ge> length (cur_text c))"

text \<open>\<open>Token(const TextCursor& cursor, TokenType type, std::size_t length)\<close>\<close>

definition Token_of_cursor :: "TextCursor \<Rightarrow> TokenType \<Rightarrow> nat \<Rightarrow> Token" where
  "Token_of_cursor c t len =
     \<lparr>tok_begin = Some (cur_offset c), tok_end = Some (cur_offset c + len),
      tok_position = cur_position c, tok_type = t\<rparr>"

section \<open>The character classes of the C library\<close>

text \<open>
  \<open>std::isspace\<close>, \<open>std::isdigit\<close> and \<open>std::isalnum\<close>, as they are in the C locale.
\<close>

definition isspace :: "char \<Rightarrow> bool" where
  "isspace c = (c = CHR '' '' \<or> (9 \<le> byte c \<and> byte c \<le> 13))"

definition isdigit :: "char \<Rightarrow> bool" where
  "isdigit c = (byte CHR ''0'' \<le> byte c \<and> byte c \<le> byte CHR ''9'')"

definition isalnum :: "char \<Rightarrow> bool" where
  "isalnum c =
     (isdigit c \<or>
      (byte CHR ''A'' \<le> byte c \<and> byte c \<le> byte CHR ''Z'') \<or>
      (byte CHR ''a'' \<le> byte c \<and> byte c \<le> byte CHR ''z''))"

section \<open>The tokenizer\<close>

text \<open>
  The classifiers of symbols are not among the sources at hand, and the spec leaves them to
  the language: \<open>utils::isValidForStartOfRSymbol\<close>, \<open>utils::isValidForRSymbol\<close> and
  \<open>tokens::symbolType\<close>, which maps the text of a symbol to its kind. They are
  parameters of the scanner.
\<close>

record env =
  isValidForStartOfRSymbol :: "char \<Rightarrow> bool"
  isValidForRSymbol :: "char \<Rightarrow> bool"
  symbolType :: "string \<Rightarrow> TokenType"

text \<open>
  The members \<open>cursor_\<close> and \<open>tokenStack_\<close>. The stack is a list with its top at the
  head.
\<close>

record Tokenizer =
  cursor :: TextCursor
  tokenStack :: "TokenType list"

definition Tokenizer_init :: "string \<Rightarrow> Tokenizer" where
  "Tokenizer_init code = \<lparr>cursor = TextCursor_init code, tokenStack = []\<rparr>"

text \<open>
  The scanning functions write their token through \<open>Token* pToken\<close> and move the cursor:
  they return the token written and the tokenizer after the call.
\<close>

definition consumeToken :: "TokenType \<Rightarrow> nat \<Rightarrow> Tokenizer \<Rightarrow> Token \<times> Tokenizer" where
  "consumeToken type len tk =
     (Token_of_cursor (cursor tk) type len, tk\<lparr>cursor := advance len (cursor tk)\<rparr>)"

text \<open>
  The loop of \<open>consumeUntil\<close> runs while the lookahead cursor differs from the end. Nothing
  in the function itself keeps a cursor that starts past the end from running on, so the
  loop is a partial function: \<open>None\<close> is a loop that does not end.
\<close>

partial_function (option) consumeUntil_loop ::
  "char \<Rightarrow> bool \<Rightarrow> TextCursor \<Rightarrow> nat \<Rightarrow> (bool \<times> nat) option" where
  "consumeUntil_loop ch skipEscaped lookahead distance =
     (if not_at_end lookahead then
        (if skipEscaped \<and> peek (advance 1 lookahead) 0 = BACKSLASH
         then consumeUntil_loop ch skipEscaped (advance 1 (advance 1 lookahead)) (distance + 1 + 1)
         else if peek (advance 1 lookahead) 0 = ch
         then Some (True, distance + 1)
         else consumeUntil_loop ch skipEscaped (advance 1 lookahead) (distance + 1))
      else Some (False, distance))"

declare consumeUntil_loop.simps [code]

definition consumeUntil ::
  "char \<Rightarrow> TokenType \<Rightarrow> bool \<Rightarrow> Tokenizer \<Rightarrow> (Token \<times> Tokenizer) option" where
  "consumeUntil ch type skipEscaped tk =
     (case consumeUntil_loop ch skipEscaped (cursor tk) 0 of
        None \<Rightarrow> None
      | Some (success, distance) \<Rightarrow>
          if success then Some (consumeToken type (distance + 1) tk)
          else Some (consumeToken ERR (distance + 1) tk))"

definition consumeUserOperator :: "Tokenizer \<Rightarrow> (Token \<times> Tokenizer) option" where
  "consumeUserOperator tk = consumeUntil CHR ''%'' OPERATOR_USER False tk"

definition consumeComment :: "Tokenizer \<Rightarrow> (Token \<times> Tokenizer) option" where
  "consumeComment tk = consumeUntil NEWLINE COMMENT False tk"

definition consumeQuotedSymbol :: "Tokenizer \<Rightarrow> (Token \<times> Tokenizer) option" where
  "consumeQuotedSymbol tk = consumeUntil BACKTICK SYMBOL True tk"

definition consumeQString :: "Tokenizer \<Rightarrow> (Token \<times> Tokenizer) option" where
  "consumeQString tk = consumeUntil SQUOTE STRING True tk"

definition consumeQQString :: "Tokenizer \<Rightarrow> (Token \<times> Tokenizer) option" where
  "consumeQQString tk = consumeUntil DQUOTE STRING True tk"

lemma isspace_peek_in_range: "isspace (peek c k) \<Longrightarrow> cur_offset c + k < length (cur_text c)"
  by (auto simp: peek_def isspace_def Let_def split: if_splits)

lemma isdigit_peek_in_range: "isdigit (peek c k) \<Longrightarrow> cur_offset c + k < length (cur_text c)"
  by (auto simp: peek_def isdigit_def Let_def split: if_splits)

lemma nonNUL_peek_in_range: "peek c k \<noteq> NUL \<Longrightarrow> cur_offset c + k < length (cur_text c)"
  by (auto simp: peek_def Let_def split: if_splits)

text \<open>\<open>while (std::isspace(cursor_.peek(distance))) ++distance;\<close>\<close>

function consumeWhitespace_loop :: "TextCursor \<Rightarrow> nat \<Rightarrow> nat" where
  "consumeWhitespace_loop c distance =
     (if isspace (peek c distance) then consumeWhitespace_loop c (distance + 1) else distance)"
  by pat_completeness auto
termination
  by (relation "measure (\<lambda>(c, distance). length (cur_text c) - (cur_offset c + distance))")
     (auto dest: isspace_peek_in_range)

declare consumeWhitespace_loop.simps [simp del]

definition consumeWhitespace :: "Tokenizer \<Rightarrow> Token \<times> Tokenizer" where
  "consumeWhitespace tk =
     consumeToken WHITESPACE (consumeWhitespace_loop (cursor tk) 1) tk"

definition isStartOfNumber :: "Tokenizer \<Rightarrow> bool" where
  "isStartOfNumber tk =
     (let ch = peek (cursor tk) 0
      in if isdigit ch then True
         else if ch = CHR ''.'' then isdigit (peek (cursor tk) 1)
         else False)"

definition isStartOfSymbol :: "env \<Rightarrow> Tokenizer \<Rightarrow> bool" where
  "isStartOfSymbol env tk = isValidForStartOfRSymbol env (peek (cursor tk) 0)"

text \<open>\<open>Tokenizer::isHexDigit\<close>\<close>

definition Tokenizer_isHexDigit :: "char \<Rightarrow> bool" where
  "Tokenizer_isHexDigit c =
     ((byte CHR ''0'' \<le> byte c \<and> byte c \<le> byte CHR ''9'') \<or>
      (byte CHR ''A'' \<le> byte c \<and> byte c \<le> byte CHR ''F'') \<or>
      (byte CHR ''a'' \<le> byte c \<and> byte c \<le> byte CHR ''f''))"

text \<open>
  The \<open>while (std::isalnum(peek) && peek != '\0')\<close> loop of \<open>consumeHexadecimalNumber\<close>;
  it returns \<open>distance\<close> and \<open>success\<close> as the loop leaves them.
\<close>

function consumeHexadecimalNumber_loop :: "TextCursor \<Rightarrow> nat \<Rightarrow> bool \<Rightarrow> nat \<times> bool" where
  "consumeHexadecimalNumber_loop c distance success =
     (if isalnum (peek c distance) \<and> peek c distance \<noteq> NUL then
        (if peek c distance = CHR ''i'' \<or> peek c distance = CHR ''L''
         then (distance + 1, success)
         else consumeHexadecimalNumber_loop c (distance + 1)
                (if \<not> Tokenizer_isHexDigit (peek c distance) then False else success))
      else (distance, success))"
  by pat_completeness auto
termination
  by (relation "measure (\<lambda>(c, distance, success). length (cur_text c) - (cur_offset c + distance))")
     (auto dest: nonNUL_peek_in_range)

declare consumeHexadecimalNumber_loop.simps [simp del]

text \<open>
  \<open>consumeHexadecimalNumber\<close> may return without writing through \<open>pToken\<close>, so it takes
  the token that \<open>pToken\<close> points to and returns it as the call leaves it, after its
  \<open>bool\<close> result.
\<close>

definition consumeHexadecimalNumber :: "Tokenizer \<Rightarrow> Token \<Rightarrow> bool \<times> Token \<times> Tokenizer" where
  "consumeHexadecimalNumber tk pToken =
     (if peek (cursor tk) 0 \<noteq> CHR ''0'' then (False, pToken, tk)
      else if peek (cursor tk) 1 \<noteq> CHR ''x'' \<and> peek (cursor tk) 1 \<noteq> CHR ''X''
      then (False, pToken, tk)
      else if \<not> Tokenizer_isHexDigit (peek (cursor tk) 2)
      then (False, consumeToken ERR 2 tk)
      else
        (case consumeHexadecimalNumber_loop (cursor tk) 2 True of
           (distance, success) \<Rightarrow>
             (True, consumeToken (if success then NUMBER else ERR) distance tk)))"

text \<open>\<open>while (std::isdigit(cursor_.peek(distance))) ++distance;\<close>\<close>

function consumeDigits :: "TextCursor \<Rightarrow> nat \<Rightarrow> nat" where
  "consumeDigits c distance =
     (if isdigit (peek c distance) then consumeDigits c (distance + 1) else distance)"
  by pat_completeness auto
termination
  by (relation "measure (\<lambda>(c, distance). length (cur_text c) - (cur_offset c + distance))")
     (auto dest: isdigit_peek_in_range)

declare consumeDigits.simps [simp del]

text \<open>
  The block of \<open>consumeNumber\<close> that follows an \<open>e\<close> or \<open>E\<close> at \<open>distance\<close>; it
  returns \<open>success\<close> and \<open>distance\<close> as the block leaves them.
\<close>

definition consumeNumber_exponent :: "TextCursor \<Rightarrow> nat \<Rightarrow> bool \<times> nat" where
  "consumeNumber_exponent c distance =
     (let distance = distance + 1;
          distance =
            (if peek c distance = CHR ''-'' \<or> peek c distance = CHR ''+''
             then distance + 1 else distance);
          success = isdigit (peek c distance);
          distance = consumeDigits c distance
      in if peek c distance = CHR ''.''
         then (False, consumeDigits c (distance + 1))
         else (success, distance))"

text \<open>
  \<open>consumeNumber\<close>. When \<open>consumeHexadecimalNumber\<close> returns \<open>false\<close> the function goes
  on from the tokenizer as that call left it.
\<close>

definition consumeNumber :: "Tokenizer \<Rightarrow> Token \<Rightarrow> Token \<times> Tokenizer" where
  "consumeNumber tk pToken =
     (case consumeHexadecimalNumber tk pToken of
        (True, pToken, tk) \<Rightarrow> (pToken, tk)
      | (False, pToken, tk) \<Rightarrow>
          (let c = cursor tk;
               distance = consumeDigits c 0;
               distance =
                 (if peek c distance = CHR ''.'' then consumeDigits c (distance + 1)
                  else distance);
               (success, distance) =
                 (if peek c distance = CHR ''e'' \<or> peek c distance = CHR ''E''
                  then consumeNumber_exponent c distance
                  else (True, distance));
               distance = (if peek c distance = CHR ''L'' then distance + 1 else distance)
           in consumeToken (if success then NUMBER else ERR) distance tk))"

text \<open>
  The loop of \<open>consumeSymbol\<close> runs while the classifier accepts the byte that
  \<open>peek\<close> returns, and past the end of input that byte is NUL for ever: whether the loop
  ends is up to the classifier, so it is a partial function.
\<close>

partial_function (option) consumeSymbol_loop :: "env \<Rightarrow> TextCursor \<Rightarrow> nat \<Rightarrow> nat option" where
  "consumeSymbol_loop env c distance =
     (if isValidForRSymbol env (peek c distance)
      then consumeSymbol_loop env c (distance + 1)
      else Some distance)"

declare consumeSymbol_loop.simps [code]

definition consumeSymbol :: "env \<Rightarrow> Tokenizer \<Rightarrow> (Token \<times> Tokenizer) option" where
  "consumeSymbol env tk =
     (case consumeSymbol_loop env (cursor tk) 1 of
        None \<Rightarrow> None
      | Some distance \<Rightarrow>
          Some (consumeToken
                  (symbolType env
                     (take distance (drop (cur_offset (cursor tk)) (cur_text (cursor tk)))))
                  distance tk))"

text \<open>
  \<open>bool Tokenizer::tokenize(Token* pToken)\<close>: the result is \<open>None\<close> when a scanning loop
  does not end, and otherwise the \<open>bool\<close> returned, the token that \<open>pToken\<close> points to
  after the call, and the tokenizer after the call.
\<close>

definition Tokenizer_tokenize :: "env \<Rightarrow> Tokenizer \<Rightarrow> Token \<Rightarrow> (bool \<times> Token \<times> Tokenizer) option" where
  "Tokenizer_tokenize env tk pToken =
     (if at_or_past_end (cursor tk) then Some (False, Token_of_type END, tk)
      else
        (let ch = peek (cursor tk) 0;
             peek1 = peek (cursor tk) 1;
             peek2 = peek (cursor tk) 2
         in map_option (Pair True)
           (if ch = CHR ''{'' then Some (consumeToken LBRACE 1 tk)
            else if ch = CHR ''}'' then Some (consumeToken RBRACE 1 tk)
            else if ch = CHR ''('' then Some (consumeToken LPAREN 1 tk)
            else if ch = CHR '')'' then Some (consumeToken RPAREN 1 tk)
            else if ch = CHR ''['' then
              (if peek1 = CHR ''[''
               then Some (consumeToken LDBRACKET 2 (tk\<lparr>tokenStack := LDBRACKET # tokenStack tk\<rparr>))
               else Some (consumeToken LBRACKET 1 (tk\<lparr>tokenStack := LBRACKET # tokenStack tk\<rparr>)))
            else if ch = CHR '']'' then
              (case tokenStack tk of
                 [] \<Rightarrow> Some (consumeToken ERR 1 tk)
               | topType # rest \<Rightarrow>
                   if topType = LDBRACKET then
                     (if peek1 = CHR '']''
                      then Some (consumeToken RDBRACKET 2 (tk\<lparr>tokenStack := rest\<rparr>))
                      else Some (consumeToken ERR 1 (tk\<lparr>tokenStack := rest\<rparr>)))
                   else Some (consumeToken RBRACKET 1 (tk\<lparr>tokenStack := rest\<rparr>)))
            else if ch = CHR ''<'' then
              (if peek1 = CHR ''-'' then Some (consumeToken OPERATOR_ASSIGN_LEFT 2 tk)
               else if peek1 = CHR ''='' then Some (consumeToken OPERATOR_LESS_OR_EQUAL 2 tk)
               else if peek1 = CHR ''<'' \<and> peek2 = CHR ''-''
               then Some (consumeToken OPERATOR_ASSIGN_LEFT_PARENT 3 tk)
               else Some (consumeToken OPERATOR_LESS 1 tk))
            else if ch = CHR ''>'' then
              (if peek1 = CHR ''='' then Some (consumeToken OPERATOR_GREATER_OR_EQUAL 2 tk)
               else Some (consumeToken OPERATOR_GREATER 1 tk))
            else if ch = CHR ''='' then
              (if peek1 = CHR ''='' then Some (consumeToken OPERATOR_EQUAL 2 tk)
               else Some (consumeToken OPERATOR_ASSIGN_LEFT_EQUALS 1 tk))
            else if ch = CHR ''|'' then
              (if peek1 = CHR ''|'' then Some (consumeToken OPERATOR_OR_SCALAR 2 tk)
               else Some (consumeToken OPERATOR_OR_VECTOR 1 tk))
            else if ch = CHR ''&'' then
              (if peek1 = CHR ''&'' then Some (consumeToken OPERATOR_AND_SCALAR 2 tk)
               else Some (consumeToken OPERATOR_AND_VECTOR 1 tk))
            else if ch = CHR ''*'' then
              (if peek1 = CHR ''*'' then Some (consumeToken OPERATOR_EXPONENTATION_STARS 2 tk)
               else Some (consumeToken OPERATOR_MULTIPLY 1 tk))
            else if ch = CHR '':'' then
              (if peek1 = CHR '':'' then
                 (if peek2 = CHR '':'' then Some (consumeToken OPERATOR_NAMESPACE_ALL 3 tk)
                  else Some (consumeToken OPERATOR_NAMESPACE_EXPORTS 2 tk))
               else if peek1 = CHR ''='' then Some (consumeToken OPERATOR_ASSIGN_LEFT_COLON 2 tk)
               else Some (consumeToken OPERATOR_SEQUENCE 1 tk))
            else if ch = CHR ''!'' then
              (if peek1 = CHR ''='' then Some (consumeToken OPERATOR_NOT_EQUAL 2 tk)
               else Some (consumeToken OPERATOR_NEGATION 1 tk))
            else if ch = CHR ''-'' then
              (if peek1 = CHR ''>'' then
                 (if peek2 = CHR ''>'' then Some (consumeToken OPERATOR_ASSIGN_RIGHT_PARENT 3 tk)
                  else Some (consumeToken OPERATOR_ASSIGN_RIGHT 2 tk))
               else Some (consumeToken OPERATOR_MINUS 1 tk))
            else if ch = CHR ''+'' then Some (consumeToken OPERATOR_PLUS 1 tk)
            else if ch = CHR ''~'' then Some (consumeToken OPERATOR_FORMULA 1 tk)
            else if ch = CHR ''?'' then Some (consumeToken OPERATOR_HELP 1 tk)
            else if ch = CHR ''/'' then Some (consumeToken OPERATOR_DIVIDE 1 tk)
            else if ch = CHR ''@'' then Some (consumeToken OPERATOR_AT 1 tk)
            else if ch = CHR ''$'' then Some (consumeToken OPERATOR_DOLLAR 1 tk)
            else if ch = CHR ''^'' then Some (consumeToken OPERATOR_HAT 1 tk)
            else if ch = CHR ''%'' then consumeUserOperator tk
            else if ch = CHR '','' then Some (consumeToken COMMA 1 tk)
            else if ch = CHR '';'' then Some (consumeToken SEMI 1 tk)
            else if isspace ch then Some (consumeWhitespace tk)
            else if ch = SQUOTE then consumeQString tk
            else if ch = DQUOTE then consumeQQString tk
            else if ch = BACKTICK then consumeQuotedSymbol tk
            else if ch = CHR ''#'' then consumeComment tk
            else if isStartOfNumber tk then Some (consumeNumber tk pToken)
            else if isStartOfSymbol env tk then consumeSymbol env tk
            else Some (consumeToken ERR 1 tk))))"

section \<open>Every call of the scanner moves the cursor\<close>

lemma advance1_offset [simp]: "cur_offset (advance1 c) = cur_offset c + 1"
  by (simp add: advance1_def)

lemma advance1_text [simp]: "cur_text (advance1 c) = cur_text c"
  by (simp add: advance1_def)

lemma advance_offset [simp]: "cur_offset (advance n c) = cur_offset c + n"
  by (induction n arbitrary: c) simp_all

lemma advance_text [simp]: "cur_text (advance n c) = cur_text c"
  by (induction n arbitrary: c) simp_all

lemma consumeToken_cursor:
  "consumeToken ty len tk = (tok, tk') \<Longrightarrow>
     cur_text (cursor tk') = cur_text (cursor tk) \<and>
     cur_offset (cursor tk') = cur_offset (cursor tk) + len \<and>
     tokenStack tk' = tokenStack tk \<and>
     tok = Token_of_cursor (cursor tk) ty len"
  by (auto simp: consumeToken_def)

lemma consumeDigits_ge: "distance \<le> consumeDigits c distance"
proof (induction c distance rule: consumeDigits.induct)
  case (1 c distance)
  show ?case
  proof (cases "isdigit (peek c distance)")
    case True
    with "1.IH" have "distance + 1 \<le> consumeDigits c (distance + 1)" by simp
    with True show ?thesis by (subst consumeDigits.simps) simp
  next
    case False
    then show ?thesis by (subst consumeDigits.simps) simp
  qed
qed

lemma consumeDigits_gt: "isdigit (peek c distance) \<Longrightarrow> distance < consumeDigits c distance"
  using consumeDigits_ge [of "distance + 1" c] by (subst consumeDigits.simps) simp

lemma consumeHexadecimalNumber_loop_ge:
  "consumeHexadecimalNumber_loop c distance success = (d, s) \<Longrightarrow> distance \<le> d"
proof (induction c distance success arbitrary: d s rule: consumeHexadecimalNumber_loop.induct)
  case (1 c distance success)
  let ?p = "peek c distance"
  show ?case
  proof (cases "isalnum ?p \<and> ?p \<noteq> NUL")
    case False
    with "1.prems" show ?thesis
      by (subst (asm) consumeHexadecimalNumber_loop.simps) auto
  next
    case go: True
    show ?thesis
    proof (cases "?p = CHR ''i'' \<or> ?p = CHR ''L''")
      case True
      with go "1.prems" show ?thesis
        by (subst (asm) consumeHexadecimalNumber_loop.simps) auto
    next
      case False
      with go "1.prems" have "consumeHexadecimalNumber_loop c (distance + 1)
          (if \<not> Tokenizer_isHexDigit ?p then False else success) = (d, s)"
        by (subst (asm) consumeHexadecimalNumber_loop.simps) simp
      from "1.IH" [OF go False this] show ?thesis by simp
    qed
  qed
qed

lemma consumeHexadecimalNumber_cursor:
  assumes "consumeHexadecimalNumber tk pToken = (b, tok, tk')"
  shows "cur_text (cursor tk') = cur_text (cursor tk) \<and>
         cur_offset (cursor tk) \<le> cur_offset (cursor tk') \<and>
         tokenStack tk' = tokenStack tk"
  using assms
  by (auto simp: consumeHexadecimalNumber_def consumeToken_def
           split: if_splits prod.splits)

lemma consumeHexadecimalNumber_True:
  assumes "consumeHexadecimalNumber tk pToken = (True, tok, tk')"
  shows "cur_offset (cursor tk) < cur_offset (cursor tk')"
  using assms
  by (auto simp: consumeHexadecimalNumber_def consumeToken_def
           split: if_splits prod.splits dest!: consumeHexadecimalNumber_loop_ge)

lemma consumeHexadecimalNumber_False:
  assumes "consumeHexadecimalNumber tk pToken = (False, tok, tk')"
  shows "tk' = tk \<or> cur_offset (cursor tk) < cur_offset (cursor tk')"
  using assms
  by (auto simp: consumeHexadecimalNumber_def consumeToken_def
           split: if_splits prod.splits)

lemma consumeNumber_exponent_ge:
  "consumeNumber_exponent c distance = (s, d) \<Longrightarrow> distance < d"
  using consumeDigits_ge [of "distance + 1" c] consumeDigits_ge [of "distance + 2" c]
    consumeDigits_ge [of "consumeDigits c (distance + 1) + 1" c]
    consumeDigits_ge [of "consumeDigits c (distance + 2) + 1" c]
  by (auto simp: consumeNumber_exponent_def Let_def split: if_splits)

lemma consumeNumber_decimal_ge:
  fixes c :: TextCursor
  defines "d1 \<equiv> consumeDigits c 0"
  defines "d2 \<equiv> (if peek c d1 = CHR ''.'' then consumeDigits c (d1 + 1) else d1)"
  defines "r \<equiv> (if peek c d2 = CHR ''e'' \<or> peek c d2 = CHR ''E''
                  then consumeNumber_exponent c d2 else (True, d2))"
  defines "d4 \<equiv> (if peek c (snd r) = CHR ''L'' then snd r + 1 else snd r)"
  assumes start: "isdigit (peek c 0) \<or> (peek c 0 = CHR ''.'' \<and> isdigit (peek c 1))"
  shows "0 < d4"
proof -
  have "0 < d2"
  proof (cases "isdigit (peek c 0)")
    case True
    then have "0 < d1" unfolding d1_def by (rule consumeDigits_gt)
    moreover have "d1 \<le> d2" unfolding d2_def using consumeDigits_ge [of "d1 + 1" c] by simp
    ultimately show ?thesis by simp
  next
    case False
    then have "d1 = 0" unfolding d1_def by (subst consumeDigits.simps) simp
    moreover from False start have "peek c 0 = CHR ''.''" and "isdigit (peek c 1)" by simp_all
    ultimately have "d2 = consumeDigits c 1" unfolding d2_def by simp
    with consumeDigits_ge [of 1 c] show ?thesis by simp
  qed
  moreover have "d2 \<le> snd r"
    unfolding r_def using consumeNumber_exponent_ge [of c d2]
    by (cases "consumeNumber_exponent c d2") auto
  moreover have "snd r \<le> d4" unfolding d4_def by simp
  ultimately show ?thesis by simp
qed

lemma consumeNumber_progress:
  assumes start: "isStartOfNumber tk" and eq: "consumeNumber tk pToken = (tok, tk')"
  shows "cur_text (cursor tk') = cur_text (cursor tk) \<and>
         cur_offset (cursor tk) < cur_offset (cursor tk') \<and>
         tokenStack tk' = tokenStack tk"
proof -
  obtain b p1 tk1 where hex: "consumeHexadecimalNumber tk pToken = (b, p1, tk1)"
    by (cases "consumeHexadecimalNumber tk pToken") auto
  note base = consumeHexadecimalNumber_cursor [OF hex]
  show ?thesis
  proof (cases b)
    case True
    with hex eq have "tk' = tk1" by (simp add: consumeNumber_def)
    with base consumeHexadecimalNumber_True [of tk pToken p1 tk1] hex True show ?thesis by simp
  next
    case False
    let ?c = "cursor tk1"
    let ?d1 = "consumeDigits ?c 0"
    let ?d2 = "(if peek ?c ?d1 = CHR ''.'' then consumeDigits ?c (?d1 + 1) else ?d1)"
    let ?r = "(if peek ?c ?d2 = CHR ''e'' \<or> peek ?c ?d2 = CHR ''E''
                  then consumeNumber_exponent ?c ?d2 else (True, ?d2))"
    let ?d4 = "(if peek ?c (snd ?r) = CHR ''L'' then snd ?r + 1 else snd ?r)"
    from hex eq False
    have tok: "consumeToken (if fst ?r then NUMBER else ERR) ?d4 tk1 = (tok, tk')"
      by (simp add: consumeNumber_def Let_def split_def split del: if_split cong: if_cong)
    then have fin: "cur_text (cursor tk') = cur_text ?c \<and>
        cur_offset (cursor tk') = cur_offset ?c + ?d4 \<and> tokenStack tk' = tokenStack tk1"
      using consumeToken_cursor by blast
    from hex False consumeHexadecimalNumber_False [of tk pToken p1 tk1]
    consider "tk1 = tk" | "cur_offset (cursor tk) < cur_offset ?c" by auto
    then have "cur_offset (cursor tk) < cur_offset ?c + ?d4"
    proof cases
      case 1
      from start have "isdigit (peek (cursor tk) 0) \<or>
          (peek (cursor tk) 0 = CHR ''.'' \<and> isdigit (peek (cursor tk) 1))"
        by (auto simp: isStartOfNumber_def Let_def split: if_splits)
      with 1 have "0 < ?d4" using consumeNumber_decimal_ge [of ?c] by simp
      with 1 show ?thesis by simp
    next
      case 2
      then show ?thesis by simp
    qed
    with fin base show ?thesis by simp
  qed
qed

lemma consumeWhitespace_loop_ge: "distance \<le> consumeWhitespace_loop c distance"
proof (induction c distance rule: consumeWhitespace_loop.induct)
  case (1 c distance)
  show ?case
  proof (cases "isspace (peek c distance)")
    case True
    with "1.IH" have "distance + 1 \<le> consumeWhitespace_loop c (distance + 1)" by simp
    with True show ?thesis by (subst consumeWhitespace_loop.simps) simp
  next
    case False
    then show ?thesis by (subst consumeWhitespace_loop.simps) simp
  qed
qed

lemma consumeSymbol_loop_ge:
  assumes "consumeSymbol_loop env c distance = Some d"
  shows "distance \<le> d"
proof (rule consumeSymbol_loop.raw_induct [where P = "\<lambda>env c distance d. distance \<le> d", OF _ assms])
  fix f :: "env \<Rightarrow> TextCursor \<Rightarrow> nat \<Rightarrow> nat option" and env c distance d
  assume IH: "\<And>env c distance y. f env c distance = Some y \<Longrightarrow> distance \<le> y"
    and body: "(if isValidForRSymbol env (peek c distance) then f env c (distance + 1)
                else Some distance) = Some d"
  show "distance \<le> d"
  proof (cases "isValidForRSymbol env (peek c distance)")
    case True
    with body have "f env c (distance + 1) = Some d" by simp
    then have "distance + 1 \<le> d" by (rule IH)
    then show ?thesis by simp
  next
    case False
    with body show ?thesis by simp
  qed
qed

lemma consumeUntil_cursor:
  assumes "consumeUntil ch ty se tk = Some (tok, tk')"
  shows "cur_text (cursor tk') = cur_text (cursor tk) \<and>
         cur_offset (cursor tk) < cur_offset (cursor tk') \<and>
         tokenStack tk' = tokenStack tk"
  using assms
  by (auto simp: consumeUntil_def consumeToken_def split: option.splits if_splits)

lemma consumeSymbol_cursor:
  assumes "consumeSymbol env tk = Some (tok, tk')"
  shows "cur_text (cursor tk') = cur_text (cursor tk) \<and>
         cur_offset (cursor tk) < cur_offset (cursor tk') \<and>
         tokenStack tk' = tokenStack tk"
  using assms
  by (auto simp: consumeSymbol_def consumeToken_def split: option.splits
           dest!: consumeSymbol_loop_ge)

lemma consumeWhitespace_cursor:
  assumes "consumeWhitespace tk = (tok, tk')"
  shows "cur_text (cursor tk') = cur_text (cursor tk) \<and>
         cur_offset (cursor tk) < cur_offset (cursor tk') \<and>
         tokenStack tk' = tokenStack tk"
  using assms consumeWhitespace_loop_ge [of 1 "cursor tk"]
  by (auto simp: consumeWhitespace_def consumeToken_def)

lemma consumeToken_moves:
  assumes "consumeToken ty len tk = (tok, tk')" and "0 < len"
  shows "cur_text (cursor tk') = cur_text (cursor tk) \<and>
         cur_offset (cursor tk) < cur_offset (cursor tk')"
  using assms by (auto simp: consumeToken_def)

lemma Tokenizer_tokenize_progress:
  assumes "Tokenizer_tokenize env tk pToken = Some (True, tok, tk')"
  shows "cur_text (cursor tk') = cur_text (cursor tk) \<and>
         cur_offset (cursor tk) < cur_offset (cursor tk') \<and>
         cur_offset (cursor tk) < length (cur_text (cursor tk))"
proof -
  from assms have inr: "cur_offset (cursor tk) < length (cur_text (cursor tk))"
    by (auto simp: Tokenizer_tokenize_def at_or_past_end_def split: if_splits)
  have "cur_text (cursor tk') = cur_text (cursor tk) \<and>
         cur_offset (cursor tk) < cur_offset (cursor tk')"
    using assms
    unfolding Tokenizer_tokenize_def Let_def consumeUserOperator_def consumeComment_def
      consumeQString_def consumeQQString_def consumeQuotedSymbol_def
    by (auto split: if_splits list.splits
         dest: consumeUntil_cursor consumeSymbol_cursor consumeWhitespace_cursor
           consumeNumber_progress
         dest!: consumeToken_moves)
  with inr show ?thesis by simp
qed

section \<open>Lookahead and the tokenize-all driver\<close>

text \<open>
  The loop of \<open>Tokenizer::peek\<close> over the clone, with the \<open>result\<close> token it writes to.
\<close>

primrec peek_loop ::
  "env \<Rightarrow> nat \<Rightarrow> Tokenizer \<Rightarrow> Token \<Rightarrow> (Token \<times> Tokenizer) option" where
  "peek_loop env 0 clone result = Some (result, clone)"
| "peek_loop env (Suc i) clone result =
     (case Tokenizer_tokenize env clone result of
        None \<Rightarrow> None
      | Some (hasMore, result', clone') \<Rightarrow>
          if \<not> hasMore then Some (result', clone') else peek_loop env i clone' result')"

text \<open>
  \<open>Token Tokenizer::peek(std::size_t lookahead)\<close>. The clone is a copy of the tokenizer:
  the copy constructor copies the cursor and the vector under the stack, and the buffer the
  cursor points into is never written. The call returns the token and the tokenizer it was
  called on as the call leaves it; the clone is dropped.
\<close>

definition Tokenizer_peek :: "env \<Rightarrow> nat \<Rightarrow> Tokenizer \<Rightarrow> (Token \<times> Tokenizer) option" where
  "Tokenizer_peek env lookahead this =
     (let clone = this
      in case peek_loop env lookahead clone (Token_of_type END) of
           None \<Rightarrow> None
         | Some (result, clone') \<Rightarrow> Some (result, this))"

text \<open>
  The loop of the free function \<open>tokenize\<close>:
  \<open>while (tokenizer.tokenize(&token)) tokens.push_back(token);\<close>
\<close>

function tokenize_loop ::
  "env \<Rightarrow> Tokenizer \<Rightarrow> Token \<Rightarrow> Token list \<Rightarrow> Token list option" where
  "tokenize_loop env tokenizer token tokens =
     (case Tokenizer_tokenize env tokenizer token of
        None \<Rightarrow> None
      | Some (hasMore, token', tokenizer') \<Rightarrow>
          if hasMore then tokenize_loop env tokenizer' token' (tokens @ [token'])
          else Some tokens)"
  by pat_completeness auto
termination
proof (relation "measure (\<lambda>(env, tokenizer, token, tokens).
          length (cur_text (cursor tokenizer)) - cur_offset (cursor tokenizer))", goal_cases)
  case 1
  show ?case by simp
next
  case (2 env tokenizer token tokens x2 hasMore y token' tokenizer')
  then have "Tokenizer_tokenize env tokenizer token = Some (True, token', tokenizer')"
    by auto
  from Tokenizer_tokenize_progress [OF this]
  have "cur_text (cursor tokenizer') = cur_text (cursor tokenizer)"
    and "cur_offset (cursor tokenizer) < cur_offset (cursor tokenizer')"
    and "cur_offset (cursor tokenizer) < length (cur_text (cursor tokenizer))"
    by simp_all
  then show ?case by simp
qed

declare tokenize_loop.simps [simp del]

text \<open>
  \<open>Token()\<close>, the token that the driver declares before its loop.
\<close>

definition Token_default :: Token where
  "Token_default =
     \<lparr>tok_begin = None, tok_end = None, tok_position = Position0, tok_type = INVALID\<rparr>"

text \<open>\<open>std::vector<tokens::Token> tokenize(const char* code, std::size_t n)\<close>\<close>

definition tokenize :: "env \<Rightarrow> string \<Rightarrow> Token list option" where
  "tokenize env code =
     (if length code = 0 then Some []
      else tokenize_loop env (Tokenizer_init code) Token_default [])"

section \<open>When the scanner returns\<close>

text \<open>
  The two partial loops end on every input the scanner gives them: the loop of
  \<open>consumeUntil\<close> when the cursor is not past the end, and the loop of
  \<open>consumeSymbol\<close> when the classifier rejects the NUL that \<open>peek\<close> returns past the end.
\<close>

lemma consumeUntil_loop_total:
  "cur_offset la \<le> length (cur_text la) \<Longrightarrow>
     \<exists>r. consumeUntil_loop ch se la d = Some r"
proof (induction "length (cur_text la) - cur_offset la" arbitrary: la d rule: less_induct)
  case less
  show ?case
  proof (cases "not_at_end la")
    case False
    then show ?thesis by (subst consumeUntil_loop.simps) auto
  next
    case True
    with less.prems have lt: "cur_offset la < length (cur_text la)"
      by (simp add: not_at_end_def)
    let ?la1 = "advance 1 la"
    have step1: "length (cur_text ?la1) - cur_offset ?la1 < length (cur_text la) - cur_offset la"
      and in1: "cur_offset ?la1 \<le> length (cur_text ?la1)"
      using lt by simp_all
    show ?thesis
    proof (cases "se \<and> peek ?la1 0 = BACKSLASH")
      case esc: True
      then have "peek ?la1 0 \<noteq> NUL" by simp
      then have "cur_offset ?la1 + 0 < length (cur_text ?la1)" by (rule nonNUL_peek_in_range)
      then have "length (cur_text (advance 1 ?la1)) - cur_offset (advance 1 ?la1)
                   < length (cur_text la) - cur_offset la"
        and "cur_offset (advance 1 ?la1) \<le> length (cur_text (advance 1 ?la1))"
        by simp_all
      from less.hyps [OF this] obtain r
        where "consumeUntil_loop ch se (advance 1 ?la1) (d + 1 + 1) = Some r" by blast
      with True esc show ?thesis by (subst consumeUntil_loop.simps) auto
    next
      case noesc: False
      show ?thesis
      proof (cases "peek ?la1 0 = ch")
        case True
        with \<open>not_at_end la\<close> noesc show ?thesis by (subst consumeUntil_loop.simps) auto
      next
        case False
        from less.hyps [OF step1 in1] obtain r
          where "consumeUntil_loop ch se ?la1 (d + 1) = Some r" by blast
        with \<open>not_at_end la\<close> noesc False show ?thesis
          by (subst consumeUntil_loop.simps) auto
      qed
    qed
  qed
qed

lemma consumeUntil_loop_unescaped:
  "cur_offset la \<le> length (cur_text la) \<Longrightarrow> ch \<noteq> NUL \<Longrightarrow>
     \<exists>d'. consumeUntil_loop ch False la d =
             Some (ch \<in> set (drop (cur_offset la + 1) (cur_text la)), d')"
proof (induction "length (cur_text la) - cur_offset la" arbitrary: la d rule: less_induct)
  case less
  show ?case
  proof (cases "not_at_end la")
    case False
    with less.prems have "cur_offset la = length (cur_text la)" by (simp add: not_at_end_def)
    with False show ?thesis by (subst consumeUntil_loop.simps) auto
  next
    case True
    with less.prems have lt: "cur_offset la < length (cur_text la)"
      by (simp add: not_at_end_def)
    let ?la1 = "advance 1 la"
    let ?o = "cur_offset la"
    let ?t = "cur_text la"
    have step1: "length (cur_text ?la1) - cur_offset ?la1 < length ?t - ?o"
      and in1: "cur_offset ?la1 \<le> length (cur_text ?la1)"
      using lt by simp_all
    have pk: "peek ?la1 0 = (if ?o + 1 < length ?t then ?t ! (?o + 1) else NUL)"
      by (simp add: peek_def Let_def)
    show ?thesis
    proof (cases "peek ?la1 0 = ch")
      case hit: True
      with pk \<open>ch \<noteq> NUL\<close> have "?o + 1 < length ?t" and "?t ! (?o + 1) = ch"
        by (auto split: if_splits)
      then have "ch \<in> set (drop (?o + 1) ?t)"
        by (metis Cons_nth_drop_Suc list.set_intros(1))
      with True hit show ?thesis by (subst consumeUntil_loop.simps) auto
    next
      case miss: False
      have "(ch \<in> set (drop (?o + 1) ?t)) = (ch \<in> set (drop (?o + 1 + 1) ?t))"
      proof (cases "?o + 1 < length ?t")
        case True
        with pk miss have "?t ! (?o + 1) \<noteq> ch" by simp
        moreover from True have "drop (?o + 1) ?t = ?t ! (?o + 1) # drop (?o + 1 + 1) ?t"
          by (simp add: Cons_nth_drop_Suc)
        ultimately show ?thesis by auto
      next
        case False
        then show ?thesis by simp
      qed
      moreover from less.hyps [OF step1 in1 less.prems(2)] obtain d'
        where "consumeUntil_loop ch False ?la1 (d + 1) =
                 Some (ch \<in> set (drop (cur_offset ?la1 + 1) (cur_text ?la1)), d')" by blast
      ultimately show ?thesis using True miss
        by (subst consumeUntil_loop.simps) auto
    qed
  qed
qed

lemma consumeSymbol_loop_total:
  assumes "\<not> isValidForRSymbol env NUL"
  shows "\<exists>d'. consumeSymbol_loop env c d = Some d'"
proof (induction "length (cur_text c) - (cur_offset c + d)" arbitrary: d rule: less_induct)
  case less
  show ?case
  proof (cases "isValidForRSymbol env (peek c d)")
    case False
    then show ?thesis by (subst consumeSymbol_loop.simps) auto
  next
    case True
    with assms have "peek c d \<noteq> NUL" by auto
    then have "cur_offset c + d < length (cur_text c)" by (rule nonNUL_peek_in_range)
    then have "length (cur_text c) - (cur_offset c + (d + 1)) < length (cur_text c) - (cur_offset c + d)"
      by simp
    from less.hyps [OF this] obtain d' where "consumeSymbol_loop env c (d + 1) = Some d'"
      by blast
    with True show ?thesis by (subst consumeSymbol_loop.simps) auto
  qed
qed

lemma consumeUntil_total:
  "cur_offset (cursor tk) \<le> length (cur_text (cursor tk)) \<Longrightarrow>
     \<exists>r. consumeUntil ch ty se tk = Some r"
  using consumeUntil_loop_total [of "cursor tk" ch se 0]
  by (auto simp: consumeUntil_def)

lemma consumeSymbol_total:
  "\<not> isValidForRSymbol env NUL \<Longrightarrow> \<exists>r. consumeSymbol env tk = Some r"
  using consumeSymbol_loop_total [of env "cursor tk" 1]
  by (auto simp: consumeSymbol_def)

lemma if_not_None: "a \<noteq> None \<Longrightarrow> b \<noteq> None \<Longrightarrow> (if c then a else b) \<noteq> None"
  by simp

lemma case_list_not_None:
  "a \<noteq> None \<Longrightarrow> (\<And>x xs. f x xs \<noteq> None) \<Longrightarrow> (case l of [] \<Rightarrow> a | x # xs \<Rightarrow> f x xs) \<noteq> None"
  by (cases l) simp_all

lemma map_option_not_None: "x \<noteq> None \<Longrightarrow> map_option f x \<noteq> None"
  by simp

lemma Tokenizer_tokenize_total:
  assumes "\<not> isValidForRSymbol env NUL"
  shows "\<exists>r. Tokenizer_tokenize env tk pToken = Some r"
proof -
  have u: "consumeUntil ch ty se tk \<noteq> None"
    if "\<not> at_or_past_end (cursor tk)" for ch ty se
    using consumeUntil_total [of tk ch ty se] that by (auto simp: at_or_past_end_def)
  have s: "consumeSymbol env tk \<noteq> None"
    using consumeSymbol_total [OF assms, of tk] by auto
  have "Tokenizer_tokenize env tk pToken \<noteq> None"
  proof (cases "at_or_past_end (cursor tk)")
    case True
    show ?thesis unfolding Tokenizer_tokenize_def if_P [OF True] by blast
  next
    case False
    show ?thesis
      unfolding Tokenizer_tokenize_def if_not_P [OF False] Let_def consumeUserOperator_def
        consumeQString_def consumeQQString_def consumeQuotedSymbol_def consumeComment_def
      by (intro if_not_None case_list_not_None map_option_not_None u [OF False] s)
         simp_all
  qed
  then show ?thesis by blast
qed

lemma peek_loop_total:
  assumes "\<not> isValidForRSymbol env NUL"
  shows "\<exists>r. peek_loop env n clone result = Some r"
proof (induction n arbitrary: clone result)
  case 0
  show ?case by auto
next
  case (Suc n)
  obtain hasMore result' clone'
    where t: "Tokenizer_tokenize env clone result = Some (hasMore, result', clone')"
    using Tokenizer_tokenize_total [OF assms, of clone result] by (metis prod_cases3)
  show ?case
  proof (cases hasMore)
    case True
    with t Suc.IH [of clone' result'] show ?thesis by auto
  next
    case False
    with t show ?thesis by auto
  qed
qed

lemma Tokenizer_peek_unchanged:
  assumes "\<not> isValidForRSymbol env NUL"
  shows "\<exists>result. Tokenizer_peek env n tk = Some (result, tk)"
  using peek_loop_total [OF assms, of n tk "Token_of_type END"]
  by (auto simp: Tokenizer_peek_def)

section \<open>Sample parameters\<close>

text \<open>
  Instances of the parameters, for running the scanner and the decoder on concrete inputs: a
  letter or a dot starts a symbol, letters, digits, dots and underscores continue it, and no
  symbol is a keyword; \<open>wcrtomb\<close> is that of the C locale, which converts the values below
  128 to one byte and fails on the others. \<open>Tok b e r c t\<close> writes a token out.
\<close>

abbreviation Tok :: "nat \<Rightarrow> nat \<Rightarrow> nat \<Rightarrow> nat \<Rightarrow> TokenType \<Rightarrow> Token" where
  "Tok b e r c t \<equiv>
     \<lparr>tok_begin = Some b, tok_end = Some e, tok_position = \<lparr>row = r, column = c\<rparr>,
      tok_type = t\<rparr>"

definition sample_start :: "char \<Rightarrow> bool" where
  "sample_start c = ((isalnum c \<and> \<not> isdigit c) \<or> c = CHR ''.'')"

definition sample_continuation :: "char \<Rightarrow> bool" where
  "sample_continuation c = (isalnum c \<or> c = CHR ''.'' \<or> c = CHR ''_'')"

definition sample_symbolType :: "string \<Rightarrow> TokenType" where
  "sample_symbolType s = SYMBOL"

definition sample_env :: env where
  "sample_env =
     \<lparr>isValidForStartOfRSymbol = sample_start, isValidForRSymbol = sample_continuation,
      symbolType = sample_symbolType\<rparr>"

definition wcrtomb_C :: wcrtomb where
  "wcrtomb_C v = (if v < 128 then Some [char_of v] else None)"

section \<open>The octal escape\<close>

text \<open>
  The digits that an octal escape at \<open>it\<close> takes are the octal digits among the three
  bytes after the backslash, up to the first byte that is not one; their value is read in
  base eight.
\<close>

definition octal_value :: "string \<Rightarrow> nat" where
  "octal_value ds = foldl (\<lambda>a d. 8 * a + (byte d - byte CHR ''0'')) 0 ds"

definition octal_digits :: "string \<Rightarrow> nat \<Rightarrow> string" where
  "octal_digits buf it = takeWhile isOctalDigit (map (rd buf) [it + 1 ..< it + 1 + 3])"

lemma parseOctal_loop_takeWhile:
  "parseOctal_loop buf it e r =
     (it + length (takeWhile isOctalDigit (map (rd buf) [it..<e])),
      foldl (\<lambda>a d. (8 * a + byte d - byte CHR ''0'') mod 256) r
        (takeWhile isOctalDigit (map (rd buf) [it..<e])))"
proof (induction buf it e r rule: parseOctal_loop.induct)
  case (1 buf it e result)
  show ?case
  proof (cases "it < e")
    case False
    then show ?thesis by (subst parseOctal_loop.simps) simp
  next
    case True
    then have upt: "[it..<e] = it # [it + 1..<e]" by (simp add: upt_conv_Cons)
    show ?thesis
    proof (cases "isOctalDigit (rd buf it)")
      case False
      with True show ?thesis by (subst parseOctal_loop.simps) (simp add: upt)
    next
      case d: True
      have "parseOctal_loop buf it e result =
            parseOctal_loop buf (it + 1) e ((8 * result + byte (rd buf it) - byte CHR ''0'') mod 256)"
        using True d by (subst parseOctal_loop.simps) simp
      also note "1.IH" [OF True refl d]
      finally show ?thesis using d by (simp add: upt)
    qed
  qed
qed

lemma octal_fold_mod:
  "\<forall>d \<in> set ds. isOctalDigit d \<Longrightarrow>
   foldl (\<lambda>a d. (8 * a + byte d - byte CHR ''0'') mod 256) (r mod 256) ds =
   foldl (\<lambda>a d. 8 * a + (byte d - byte CHR ''0'')) r ds mod 256"
proof (induction ds arbitrary: r)
  case Nil
  then show ?case by simp
next
  case (Cons d ds)
  then have "48 \<le> byte d" by (simp add: isOctalDigit_def)
  then have "8 * (r mod 256) + byte d - byte CHR ''0'' =
             8 * (r mod 256) + (byte d - byte CHR ''0'')"
    by simp
  moreover have "(8 * (r mod 256) + k) mod 256 = (8 * r + k) mod 256" for k :: nat
    by (metis mod_add_left_eq mod_mult_right_eq)
  ultimately have "(8 * (r mod 256) + byte d - byte CHR ''0'') mod 256 =
             (8 * r + (byte d - byte CHR ''0'')) mod 256"
    by simp
  with Cons.IH [of "8 * r + (byte d - byte CHR ''0'')"] Cons.prems show ?case by simp
qed

lemma octal_digits_props:
  "length (octal_digits buf it) \<le> 3 \<and> (\<forall>d \<in> set (octal_digits buf it). isOctalDigit d)"
proof -
  have "length (octal_digits buf it) \<le> length (map (rd buf) [it + 1 ..< it + 1 + 3])"
    unfolding octal_digits_def by (rule length_takeWhile_le)
  moreover have "\<forall>d \<in> set (octal_digits buf it). isOctalDigit d"
    unfolding octal_digits_def by (auto dest: set_takeWhileD)
  ultimately show ?thesis by simp
qed

lemma parseOctal_octal:
  assumes "rd buf it = BACKSLASH" and "isOctalDigit (rd buf (it + 1))"
  shows "parseOctal buf it output =
           Some (it + 1 + length (octal_digits buf it),
                 output @ [char_of (octal_value (octal_digits buf it) mod 256)])"
proof -
  have "foldl (\<lambda>a d. (8 * a + byte d - byte CHR ''0'') mod 256) (0 mod 256) (octal_digits buf it) =
        octal_value (octal_digits buf it) mod 256"
    unfolding octal_value_def using octal_digits_props [of buf it]
    by (intro octal_fold_mod) simp
  then have "parseOctal_loop buf (it + 1) (it + 1 + 3) 0 =
          (it + 1 + length (octal_digits buf it), octal_value (octal_digits buf it) mod 256)"
    unfolding parseOctal_loop_takeWhile octal_digits_def by simp
  then show ?thesis using assms
    unfolding parseOctal_def isOctalDigit_def Let_def by (simp add: not_less not_le)
qed

section \<open>The turns of the decoding loop\<close>

text \<open>
  What a turn of the loop of \<open>stringValue\<close> writes does not depend on what was written
  before it: the parsers and the \<open>switch\<close> only append to the output.
\<close>

lemma parseOctal_output:
  "parseOctal buf it out = map_option (\<lambda>(it', bytes). (it', out @ bytes)) (parseOctal buf it [])"
  by (simp add: parseOctal_def Let_def split: prod.splits)

lemma parseHex_output:
  "parseHex buf it out = map_option (\<lambda>(it', bytes). (it', out @ bytes)) (parseHex buf it [])"
  by (simp add: parseHex_def Let_def split: prod.splits)

lemma parseUnicode_output:
  "parseUnicode wc buf it out =
     map_option (\<lambda>(it', bytes). (it', out @ bytes)) (parseUnicode wc buf it [])"
  by (simp add: parseUnicode_def Let_def split: prod.splits option.splits)

lemma stringValue_escape_output:
  "stringValue_escape wc buf it out =
     (fst (stringValue_escape wc buf it []), out @ snd (stringValue_escape wc buf it []))"
proof -
  note o = parseOctal_output [of buf it out] parseHex_output [of buf it out]
    parseUnicode_output [of wc buf it out]
  show ?thesis
    unfolding stringValue_escape_def o
    by (auto split: option.splits)
qed

lemma stringValue_loop_output:
  "stringValue_loop wc buf it e out = out @ stringValue_loop wc buf it e []"
proof (induction "e - it" arbitrary: it out rule: less_induct)
  case less
  show ?case
  proof (cases "it < e")
    case False
    then show ?thesis by (simp add: stringValue_loop.simps [of wc buf it e])
  next
    case True
    show ?thesis
    proof (cases "rd buf it = BACKSLASH")
      case esc: True
      let ?r = "stringValue_escape wc buf it []"
      have "it < fst ?r" by (rule stringValue_escape_advances [of wc buf it "[]" _ "snd ?r"]) simp
      with True have m: "e - fst ?r < e - it" by simp
      have "stringValue_loop wc buf it e out =
              stringValue_loop wc buf (fst ?r) e (out @ snd ?r)"
        using True esc stringValue_escape_output [of wc buf it out]
        by (simp add: stringValue_loop.simps [of wc buf it e out])
      also have "\<dots> = (out @ snd ?r) @ stringValue_loop wc buf (fst ?r) e []"
        by (rule less.hyps [OF m])
      also have "\<dots> = out @ stringValue_loop wc buf (fst ?r) e (snd ?r)"
        using less.hyps [OF m, of "snd ?r"] by simp
      also have "stringValue_loop wc buf (fst ?r) e (snd ?r) = stringValue_loop wc buf it e []"
        using True esc by (simp add: stringValue_loop.simps [of wc buf it e "[]"] split_def)
      finally show ?thesis .
    next
      case False
      from True have m: "e - (it + 1) < e - it" by simp
      have "stringValue_loop wc buf it e out =
              stringValue_loop wc buf (it + 1) e (out @ [rd buf it])"
        using True False by (simp add: stringValue_loop.simps [of wc buf it e out])
      also have "\<dots> = (out @ [rd buf it]) @ stringValue_loop wc buf (it + 1) e []"
        by (rule less.hyps [OF m])
      also have "\<dots> = out @ stringValue_loop wc buf (it + 1) e [rd buf it]"
        using less.hyps [OF m, of "[rd buf it]"] by simp
      also have "stringValue_loop wc buf (it + 1) e [rd buf it] = stringValue_loop wc buf it e []"
        using True False by (simp add: stringValue_loop.simps [of wc buf it e "[]"])
      finally show ?thesis .
    qed
  qed
qed

text \<open>
  \<open>stringValue_step\<close> is the body of the \<open>while (it < end)\<close> loop of \<open>stringValue\<close>, one
  turn from the iterator and the output written so far: the loop is this step repeated while
  \<open>it < end\<close>. When \<open>k\<close> turns from \<open>start\<close> with nothing written lead to \<open>it\<close>,
  \<open>it\<close> is a position of the decoded span at which the loop begins a turn.
\<close>

definition stringValue_step :: "wcrtomb \<Rightarrow> string \<Rightarrow> nat \<times> string \<Rightarrow> nat \<times> string" where
  "stringValue_step wc buf s =
     (case s of
        (it, output) \<Rightarrow>
          if rd buf it = BACKSLASH then stringValue_escape wc buf it output
          else (it + 1, output @ [rd buf it]))"

lemma stringValue_loop_step:
  "it < e \<Longrightarrow>
     stringValue_loop wc buf it e out =
       stringValue_loop wc buf (fst (stringValue_step wc buf (it, out))) e
         (snd (stringValue_step wc buf (it, out)))"
  by (simp add: stringValue_loop.simps [of wc buf it e out] stringValue_step_def split_def)

lemma stringValue_step_advances: "fst s < fst (stringValue_step wc buf s)"
proof (cases s)
  case (Pair it out)
  then show ?thesis
    using stringValue_escape_advances [of wc buf it out]
    by (cases "stringValue_escape wc buf it out") (auto simp: stringValue_step_def)
qed

lemma stringValue_steps_mono: "fst s \<le> fst ((stringValue_step wc buf ^^ k) s)"
proof (induction k)
  case 0
  show ?case by simp
next
  case (Suc k)
  have "fst ((stringValue_step wc buf ^^ k) s)
          < fst (stringValue_step wc buf ((stringValue_step wc buf ^^ k) s))"
    by (rule stringValue_step_advances)
  with Suc show ?case by simp
qed

lemma stringValue_loop_steps:
  assumes "(stringValue_step wc buf ^^ k) (start, out) = (it, pre)" and "it < e"
  shows "stringValue_loop wc buf start e out = stringValue_loop wc buf it e pre"
  using assms
proof (induction k arbitrary: start out)
  case 0
  then show ?case by simp
next
  case (Suc k)
  let ?s = "stringValue_step wc buf (start, out)"
  from Suc.prems(1) have r: "(stringValue_step wc buf ^^ k) (fst ?s, snd ?s) = (it, pre)"
    by (simp add: funpow_swap1)
  have "start < fst ?s"
    using stringValue_step_advances [where s = "(start, out)" and wc = wc and buf = buf] by simp
  also have "fst ?s \<le> it"
    using stringValue_steps_mono [where s = "(fst ?s, snd ?s)" and wc = wc and buf = buf and k = k] r
    by simp
  finally have "start < e" using Suc.prems(2) by simp
  then have "stringValue_loop wc buf start e out = stringValue_loop wc buf (fst ?s) e (snd ?s)"
    by (rule stringValue_loop_step)
  also have "\<dots> = stringValue_loop wc buf it e pre"
    using r Suc.prems(2) by (rule Suc.IH)
  finally show ?case .
qed

section \<open>Sequences of lookahead calls\<close>

text \<open>
  \<open>peeks env lookaheads tk\<close> calls \<open>peek\<close> on one tokenizer once for each distance of
  the list, in order: it returns the tokens that the calls return and the tokenizer after the
  last call.
\<close>

fun peeks :: "env \<Rightarrow> nat list \<Rightarrow> Tokenizer \<Rightarrow> (Token list \<times> Tokenizer) option" where
  "peeks env [] tk = Some ([], tk)"
| "peeks env (lookahead # rest) tk =
     (case Tokenizer_peek env lookahead tk of
        None \<Rightarrow> None
      | Some (result, tk') \<Rightarrow>
          (case peeks env rest tk' of
             None \<Rightarrow> None
           | Some (results, tk'') \<Rightarrow> Some (result # results, tk'')))"

lemma peeks_unchanged:
  assumes "\<not> isValidForRSymbol env NUL"
  shows "\<exists>results. peeks env lookaheads tk = Some (results, tk) \<and>
           length results = length lookaheads"
proof (induction lookaheads)
  case Nil
  show ?case by simp
next
  case (Cons lookahead rest)
  from Tokenizer_peek_unchanged [OF assms, of lookahead tk] obtain result
    where "Tokenizer_peek env lookahead tk = Some (result, tk)" by blast
  moreover from Cons.IH obtain results
    where "peeks env rest tk = Some (results, tk)" and "length results = length rest" by blast
  ultimately show ?case by simp
qed

section \<open>Running the scanner on concrete inputs\<close>

text \<open>
  The loop of \<open>consumeSymbol\<close> stops where the classifier rejects the byte; with that and
  the definitions of the scanner, the simplifier runs the driver on an input whose symbols
  the hypotheses on the classifiers decide.
\<close>

lemma consumeSymbol_loop_stop:
  "\<not> isValidForRSymbol env (peek c distance) \<Longrightarrow> consumeSymbol_loop env c distance = Some distance"
  by (subst consumeSymbol_loop.simps) simp

lemmas scan_defs =
  Let_def tokenize_def tokenize_loop.simps Tokenizer_tokenize_def Tokenizer_init_def
  TextCursor_init_def at_or_past_end_def peek_def consumeToken_def Token_of_cursor_def
  Token_of_type_def Position0_def advance1_def numeral_eq_Suc isspace_def isdigit_def
  isStartOfNumber_def isStartOfSymbol_def consumeSymbol_def consumeSymbol_loop_stop

lemma brackets_double:
  assumes "isValidForStartOfRSymbol env CHR ''a''" and "\<not> isValidForRSymbol env CHR '']''"
    and "symbolType env ''a'' = SYMBOL"
  shows "tokenize env ''[[a]]'' =
           Some [Tok 0 2 0 0 LDBRACKET, Tok 2 3 0 2 SYMBOL, Tok 3 5 0 3 RDBRACKET]"
  using assms by (simp add: scan_defs)

lemma brackets_single:
  assumes "isValidForStartOfRSymbol env CHR ''a''" and "\<not> isValidForRSymbol env CHR '']''"
    and "symbolType env ''a'' = SYMBOL"
  shows "tokenize env ''[a]'' =
           Some [Tok 0 1 0 0 LBRACKET, Tok 1 2 0 1 SYMBOL, Tok 2 3 0 2 RBRACKET]"
  using assms by (simp add: scan_defs)

lemma brackets_unbalanced:
  assumes "isValidForStartOfRSymbol env CHR ''a''" and "\<not> isValidForRSymbol env CHR '']''"
    and "symbolType env ''a'' = SYMBOL"
  shows "tokenize env ''[[a]'' =
           Some [Tok 0 2 0 0 LDBRACKET, Tok 2 3 0 2 SYMBOL, Tok 3 4 0 3 ERR]"
  using assms by (simp add: scan_defs)

lemma bracket_empty_stack:
  assumes "\<not> at_or_past_end (cursor tk)" and "peek (cursor tk) 0 = CHR '']''"
    and "tokenStack tk = []"
  shows "Tokenizer_tokenize env tk pToken =
           Some (True, Token_of_cursor (cursor tk) ERR 1, tk\<lparr>cursor := advance 1 (cursor tk)\<rparr>)"
  using assms by (simp add: Tokenizer_tokenize_def consumeToken_def)

lemma number_0x1A: "tokenize env ''0x1A'' = Some [Tok 0 4 0 0 NUMBER]"
  by code_simp

lemma number_0x1G: "tokenize env ''0x1G'' = Some [Tok 0 4 0 0 ERR]"
  by code_simp

lemma number_dot5: "tokenize env ''.5'' = Some [Tok 0 2 0 0 NUMBER]"
  by code_simp

lemma number_100dot: "tokenize env ''100.'' = Some [Tok 0 4 0 0 NUMBER]"
  by code_simp

lemma number_1e: "tokenize env ''1e'' = Some [Tok 0 2 0 0 ERR]"
  by code_simp

lemma number_1e10: "tokenize env ''1e10'' = Some [Tok 0 4 0 0 NUMBER]"
  by code_simp

section \<open>The claims\<close>

text \<open>
  C1. The driver does not cover the input when a number starts with \<open>0x\<close> and no
  hexadecimal digit follows: for the two bytes \<open>0x\<close> it returns one \<open>NUMBER\<close> token that
  begins and ends at offset 2, so the spans of its tokens add up to nothing and both bytes
  of the input are lost. And a run without its closing delimiter is given a span that ends
  one byte past the end of input: for the two bytes of a double quote and \<open>a\<close> the
  \<open>ERR\<close> token ends at offset 3.
\<close>

theorem tokenize_loses_bytes:
  "tokenize env ''0x'' = Some [Tok 2 2 0 2 NUMBER] \<and>
   concat (map (contents ''0x'') [Tok 2 2 0 2 NUMBER]) = [] \<and>
   tokenize env [DQUOTE, CHR ''a''] = Some [Tok 0 3 0 0 ERR] \<and>
   length [DQUOTE, CHR ''a''] = 2"
  by code_simp

text \<open>
  C2. For the \<open>STRING\<close> token over the six bytes double quote, \<open>a\<close>, backslash,
  \<open>n\<close>, \<open>b\<close>, double quote, \<open>stringValue\<close> returns four bytes: \<open>a\<close>, LF, \<open>b\<close>
  and the NUL it writes after the decoded text; for the token over the single-quoted
  \<open>\x41\<close> it returns the two bytes \<open>A\<close> and NUL.
\<close>

theorem stringValue_trailing_NUL:
  "tokenize env [DQUOTE, CHR ''a'', BACKSLASH, CHR ''n'', CHR ''b'', DQUOTE] =
     Some [Tok 0 6 0 0 STRING] \<and>
   stringValue_token wc [DQUOTE, CHR ''a'', BACKSLASH, CHR ''n'', CHR ''b'', DQUOTE]
     (Tok 0 6 0 0 STRING) = Some [CHR ''a'', NEWLINE, CHR ''b'', NUL] \<and>
   tokenize env [SQUOTE, BACKSLASH, CHR ''x'', CHR ''4'', CHR ''1'', SQUOTE] =
     Some [Tok 0 6 0 0 STRING] \<and>
   stringValue_token wc [SQUOTE, BACKSLASH, CHR ''x'', CHR ''4'', CHR ''1'', SQUOTE]
     (Tok 0 6 0 0 STRING) = Some [CHR ''A'', NUL]"
  by code_simp

text \<open>
  C3. A call of the scanner can produce a token of size zero that is not \<open>END\<close>: on
  the three bytes \<open>0xg\<close> the first call returns \<open>true\<close> with a \<open>NUMBER\<close> token that
  begins and ends at offset 2, the cursor having moved from 0 to 2.
\<close>

theorem tokenize_empty_number:
  "Tokenizer_tokenize env (Tokenizer_init ''0xg'') Token_default =
     Some (True, Tok 2 2 0 2 NUMBER,
           \<lparr>cursor = \<lparr>cur_text = ''0xg'', cur_offset = 2, cur_position = \<lparr>row = 0, column = 2\<rparr>\<rparr>,
            tokenStack = []\<rparr>) \<and>
   size_tok (Tok 2 2 0 2 NUMBER) = 0"
  by code_simp

text \<open>
  C4, as it is stated, fails: on the two bytes \<open>#a\<close>, which end before any newline, the
  token produced is \<open>ERR\<close>, not \<open>COMMENT\<close>.
\<close>

theorem comment_at_end_of_input_counterexample:
  "Tokenizer_tokenize sample_env (Tokenizer_init ''#a'') Token_default =
     Some (True, Tok 0 3 0 0 ERR,
           \<lparr>cursor = \<lparr>cur_text = ''#a'', cur_offset = 3, cur_position = \<lparr>row = 0, column = 3\<rparr>\<rparr>,
            tokenStack = []\<rparr>)"
  by code_simp

text \<open>
  C4, amended. When the byte at the cursor is \<open>#\<close>, the scanner returns a token, and its
  kind is \<open>COMMENT\<close> when a newline occurs after the \<open>#\<close> and \<open>ERR\<close> when the input
  ends before any newline.
\<close>

theorem comment_kind:
  assumes "cur_offset (cursor tk) < length (cur_text (cursor tk))"
    and "peek (cursor tk) 0 = CHR ''#''"
  shows "\<exists>tok tk'. Tokenizer_tokenize env tk pToken = Some (True, tok, tk') \<and>
           tok_type tok =
             (if NEWLINE \<in> set (drop (cur_offset (cursor tk) + 1) (cur_text (cursor tk)))
              then COMMENT else ERR)"
proof -
  from assms(1) have le: "cur_offset (cursor tk) \<le> length (cur_text (cursor tk))" by simp
  have "NEWLINE \<noteq> NUL" by simp
  from consumeUntil_loop_unescaped [OF le this, of 0] obtain d'
    where loop: "consumeUntil_loop NEWLINE False (cursor tk) 0 =
      Some (NEWLINE \<in> set (drop (cur_offset (cursor tk) + 1) (cur_text (cursor tk))), d')"
    by blast
  have "consumeComment tk =
      Some (consumeToken
        (if NEWLINE \<in> set (drop (cur_offset (cursor tk) + 1) (cur_text (cursor tk)))
         then COMMENT else ERR) (d' + 1) tk)"
    by (simp add: consumeComment_def consumeUntil_def loop)
  moreover from assms(1) have "\<not> at_or_past_end (cursor tk)" by (simp add: at_or_past_end_def)
  ultimately have "Tokenizer_tokenize env tk pToken =
      Some (True, consumeToken
        (if NEWLINE \<in> set (drop (cur_offset (cursor tk) + 1) (cur_text (cursor tk)))
         then COMMENT else ERR) (d' + 1) tk)"
    using assms(2) by (simp add: Tokenizer_tokenize_def isspace_def)
  then show ?thesis by (auto simp: consumeToken_def Token_of_cursor_def)
qed

theorem comment_kind_witness:
  "cur_offset (cursor (Tokenizer_init ''#a'')) < length (cur_text (cursor (Tokenizer_init ''#a''))) \<and>
   peek (cursor (Tokenizer_init ''#a'')) 0 = CHR ''#'' \<and>
   (\<exists>tok tk'. Tokenizer_tokenize sample_env (Tokenizer_init ''#a'') Token_default =
        Some (True, tok, tk') \<and> tok_type tok = ERR)"
proof -
  have h1: "cur_offset (cursor (Tokenizer_init ''#a'')) < length (cur_text (cursor (Tokenizer_init ''#a'')))"
    by (simp add: Tokenizer_init_def TextCursor_init_def)
  have h2: "peek (cursor (Tokenizer_init ''#a'')) 0 = CHR ''#''"
    by (simp add: Tokenizer_init_def TextCursor_init_def peek_def)
  have "NEWLINE \<notin> set (drop (cur_offset (cursor (Tokenizer_init ''#a'')) + 1)
          (cur_text (cursor (Tokenizer_init ''#a''))))"
    by (simp add: Tokenizer_init_def TextCursor_init_def)
  with comment_kind [OF h1 h2, of sample_env Token_default] h1 h2 show ?thesis by simp
qed

text \<open>
  C5. The numeric literals of the stated vectors: \<open>0x1A\<close> is one \<open>NUMBER\<close> token,
  \<open>0x1G\<close> one \<open>ERR\<close> token over all four bytes, \<open>.5\<close> and \<open>100.\<close> one
  \<open>NUMBER\<close> token each, \<open>1e\<close> one \<open>ERR\<close> token over both bytes, and \<open>1e10\<close> one
  \<open>NUMBER\<close> token; in each case the token spans the whole input.
\<close>

theorem numeric_vectors:
  "tokenize env ''0x1A'' = Some [Tok 0 4 0 0 NUMBER] \<and>
   tokenize env ''0x1G'' = Some [Tok 0 4 0 0 ERR] \<and>
   tokenize env ''.5'' = Some [Tok 0 2 0 0 NUMBER] \<and>
   tokenize env ''100.'' = Some [Tok 0 4 0 0 NUMBER] \<and>
   tokenize env ''1e'' = Some [Tok 0 2 0 0 ERR] \<and>
   tokenize env ''1e10'' = Some [Tok 0 4 0 0 NUMBER]"
  by (intro conjI number_0x1A number_0x1G number_dot5 number_100dot number_1e number_1e10)

text \<open>
  C6. With classifiers that take \<open>a\<close> as a symbol of its own before a \<open>]\<close>:
  \<open>[[a]]\<close> is scanned as \<open>LDBRACKET\<close>, \<open>SYMBOL\<close>, \<open>RDBRACKET\<close>; \<open>[a]\<close> as
  \<open>LBRACKET\<close>, \<open>SYMBOL\<close>, \<open>RBRACKET\<close>; in \<open>[[a]\<close> the closing bracket is an
  \<open>ERR\<close> token of one byte; and whenever a \<open>]\<close> is scanned with the bracket stack
  empty, the call returns \<open>true\<close> with an \<open>ERR\<close> token of one byte and the cursor one
  byte on.
\<close>

theorem bracket_disambiguation:
  assumes "isValidForStartOfRSymbol env CHR ''a''" and "\<not> isValidForRSymbol env CHR '']''"
    and "symbolType env ''a'' = SYMBOL"
  shows "tokenize env ''[[a]]'' =
           Some [Tok 0 2 0 0 LDBRACKET, Tok 2 3 0 2 SYMBOL, Tok 3 5 0 3 RDBRACKET] \<and>
         tokenize env ''[a]'' =
           Some [Tok 0 1 0 0 LBRACKET, Tok 1 2 0 1 SYMBOL, Tok 2 3 0 2 RBRACKET] \<and>
         tokenize env ''[[a]'' =
           Some [Tok 0 2 0 0 LDBRACKET, Tok 2 3 0 2 SYMBOL, Tok 3 4 0 3 ERR] \<and>
         (\<forall>tk pToken.
            \<not> at_or_past_end (cursor tk) \<and> peek (cursor tk) 0 = CHR '']'' \<and> tokenStack tk = []
            \<longrightarrow> Tokenizer_tokenize env tk pToken =
                  Some (True, Token_of_cursor (cursor tk) ERR 1,
                        tk\<lparr>cursor := advance 1 (cursor tk)\<rparr>))"
  using brackets_double [OF assms] brackets_single [OF assms] brackets_unbalanced [OF assms]
    bracket_empty_stack [of _ env]
  by blast

theorem bracket_disambiguation_witness:
  "isValidForStartOfRSymbol sample_env CHR ''a'' \<and>
   \<not> isValidForRSymbol sample_env CHR '']'' \<and>
   symbolType sample_env ''a'' = SYMBOL \<and>
   tokenize sample_env ''[[a]]'' =
     Some [Tok 0 2 0 0 LDBRACKET, Tok 2 3 0 2 SYMBOL, Tok 3 5 0 3 RDBRACKET] \<and>
   tokenize sample_env ''[a]'' =
     Some [Tok 0 1 0 0 LBRACKET, Tok 1 2 0 1 SYMBOL, Tok 2 3 0 2 RBRACKET] \<and>
   tokenize sample_env ''[[a]'' =
     Some [Tok 0 2 0 0 LDBRACKET, Tok 2 3 0 2 SYMBOL, Tok 3 4 0 3 ERR] \<and>
   Tokenizer_tokenize sample_env (Tokenizer_init '']'') Token_default =
     Some (True, Tok 0 1 0 0 ERR,
           \<lparr>cursor = \<lparr>cur_text = '']'', cur_offset = 1, cur_position = \<lparr>row = 0, column = 1\<rparr>\<rparr>,
            tokenStack = []\<rparr>)"
proof -
  have h1: "isValidForStartOfRSymbol sample_env CHR ''a''"
    by (simp add: sample_env_def sample_start_def isalnum_def isdigit_def)
  have h2: "\<not> isValidForRSymbol sample_env CHR '']''"
    by (simp add: sample_env_def sample_continuation_def isalnum_def isdigit_def)
  have h3: "symbolType sample_env ''a'' = SYMBOL"
    by (simp add: sample_env_def sample_symbolType_def)
  have h4: "\<not> at_or_past_end (cursor (Tokenizer_init '']'')) \<and>
            peek (cursor (Tokenizer_init '']'')) 0 = CHR '']'' \<and>
            tokenStack (Tokenizer_init '']'') = []"
    by (simp add: Tokenizer_init_def TextCursor_init_def at_or_past_end_def peek_def)
  have e: "Token_of_cursor (cursor (Tokenizer_init '']'')) ERR 1 = Tok 0 1 0 0 ERR"
    by (simp add: Tokenizer_init_def TextCursor_init_def Token_of_cursor_def Position0_def)
  have a: "(Tokenizer_init '']'')\<lparr>cursor := advance 1 (cursor (Tokenizer_init '']''))\<rparr> =
       \<lparr>cursor = \<lparr>cur_text = '']'', cur_offset = 1, cur_position = \<lparr>row = 0, column = 1\<rparr>\<rparr>,
        tokenStack = []\<rparr>"
    by (simp add: Tokenizer_init_def TextCursor_init_def advance1_def peek_def Position0_def)
  from bracket_disambiguation [OF h1 h2 h3] h4
  have "Tokenizer_tokenize sample_env (Tokenizer_init '']'') Token_default =
          Some (True, Token_of_cursor (cursor (Tokenizer_init '']'')) ERR 1,
                (Tokenizer_init '']'')\<lparr>cursor := advance 1 (cursor (Tokenizer_init '']''))\<rparr>)"
    by blast
  with bracket_disambiguation [OF h1 h2 h3] h1 h2 h3 show ?thesis
    unfolding e a by blast
qed

text \<open>
  C7. The hexadecimal escape does not take every hexadecimal digit: a digit \<open>0\<close> ends
  the digit loop and is left in the input. Decoding the four bytes \<open>\x40\<close> emits the byte
  0x04 for the escape and then copies the \<open>0\<close>, where \<open>\x41\<close> gives the one byte \<open>A\<close>.
\<close>

theorem parseHex_stops_at_zero_digit:
  "parseHex [BACKSLASH, CHR ''x'', CHR ''4'', CHR ''0''] 0 [] = Some (3, [CHR 0x04]) \<and>
   stringValue_loop wc [BACKSLASH, CHR ''x'', CHR ''4'', CHR ''0''] 0 4 [] =
     [CHR 0x04, CHR ''0''] \<and>
   parseHex [BACKSLASH, CHR ''x'', CHR ''4'', CHR ''1''] 0 [] = Some (4, [CHR ''A''])"
  by code_simp

text \<open>
  C8. With a classifier that rejects the NUL past the end of input (so that every scan
  ends), any sequence of \<open>peek\<close> calls returns, one token for each call, and leaves the
  tokenizer as it was; so the next call of \<open>tokenize\<close>, and the whole run of the driver's
  loop, after the calls is what it is without them.
\<close>

theorem peek_nondestructive:
  assumes "\<not> isValidForRSymbol env NUL"
  shows "(\<exists>results. peeks env lookaheads tk = Some (results, tk) \<and>
            length results = length lookaheads) \<and>
         (case peeks env lookaheads tk of
            None \<Rightarrow> None
          | Some (results, tk') \<Rightarrow> Tokenizer_tokenize env tk' pToken) =
           Tokenizer_tokenize env tk pToken \<and>
         (case peeks env lookaheads tk of
            None \<Rightarrow> None
          | Some (results, tk') \<Rightarrow> tokenize_loop env tk' token tokens) =
           tokenize_loop env tk token tokens"
proof -
  from peeks_unchanged [OF assms, of lookaheads tk] obtain results
    where p: "peeks env lookaheads tk = Some (results, tk)"
      and l: "length results = length lookaheads" by blast
  then show ?thesis by simp
qed

theorem peek_nondestructive_witness:
  "\<not> isValidForRSymbol sample_env NUL \<and>
   (\<exists>results. peeks sample_env [1, 2] (Tokenizer_init ''[a]'') =
        Some (results, Tokenizer_init ''[a]'') \<and> length results = 2) \<and>
   (case peeks sample_env [1, 2] (Tokenizer_init ''[a]'') of
      None \<Rightarrow> None
    | Some (results, tk') \<Rightarrow> Tokenizer_tokenize sample_env tk' Token_default) =
     Tokenizer_tokenize sample_env (Tokenizer_init ''[a]'') Token_default"
proof -
  have h: "\<not> isValidForRSymbol sample_env NUL"
    by (simp add: sample_env_def sample_continuation_def isalnum_def isdigit_def)
  have len: "length [1::nat, 2] = 2" by simp
  note t = peek_nondestructive [OF h, of "[1, 2]" "Tokenizer_init ''[a]''" Token_default,
      unfolded len]
  from t h show ?thesis by blast
qed

text \<open>
  C9. At an octal escape of the span that \<open>stringValue\<close> decodes, a backslash followed by
  an octal digit at a position \<open>it\<close> where the loop begins a turn, the decoder takes from
  one to three octal digits and emits exactly one byte, whose value is the octal number modulo
  256: \<open>parseOctal\<close> returns \<open>true\<close> with the iterator after the last digit taken and
  that one byte appended, and the result of \<open>stringValue\<close> is what was decoded before the
  escape, that one byte, what the loop decodes after the last digit taken, and the NUL that
  \<open>stringValue\<close> ends every result with.
\<close>

theorem octal_escape_one_byte:
  assumes "rd buf it = BACKSLASH" and "isOctalDigit (rd buf (it + 1))" and "it < e"
    and "(stringValue_step wc buf ^^ k) (start, []) = (it, pre)"
  shows "1 \<le> length (octal_digits buf it) \<and> length (octal_digits buf it) \<le> 3 \<and>
         parseOctal buf it output =
           Some (it + 1 + length (octal_digits buf it),
                 output @ [char_of (octal_value (octal_digits buf it) mod 256)]) \<and>
         byte (char_of (octal_value (octal_digits buf it) mod 256) :: char) =
           octal_value (octal_digits buf it) mod 256 \<and>
         stringValue_loop wc buf it e output =
           stringValue_loop wc buf (it + 1 + length (octal_digits buf it)) e
             (output @ [char_of (octal_value (octal_digits buf it) mod 256)]) \<and>
         stringValue wc buf start e =
           pre @ [char_of (octal_value (octal_digits buf it) mod 256)] @
           stringValue_loop wc buf (it + 1 + length (octal_digits buf it)) e [] @ [NUL]"
proof -
  let ?ds = "octal_digits buf it"
  let ?b = "char_of (octal_value ?ds mod 256) :: char"
  have p: "parseOctal buf it out = Some (it + 1 + length ?ds, out @ [?b])" for out
    using assms(1,2) by (rule parseOctal_octal)
  have "[it + 1 ..< it + 1 + 3] = (it + 1) # [it + 2 ..< it + 1 + 3]" by (simp add: upt_conv_Cons)
  then have "1 \<le> length ?ds" using assms(2) by (simp add: octal_digits_def)
  moreover have "length ?ds \<le> 3" using octal_digits_props by simp
  moreover have "byte ?b = octal_value ?ds mod 256" by simp
  moreover have turn: "stringValue_loop wc buf it e out =
             stringValue_loop wc buf (it + 1 + length ?ds) e (out @ [?b])" for out
    using assms(1,3) p [of out]
    by (subst stringValue_loop.simps) (simp add: stringValue_escape_def)
  moreover have "stringValue wc buf start e =
           pre @ [?b] @ stringValue_loop wc buf (it + 1 + length ?ds) e [] @ [NUL]"
  proof -
    have "start \<le> it"
      using stringValue_steps_mono [where s = "(start, [])" and wc = wc and buf = buf and k = k]
        assms(4)
      by simp
    with assms(3) have "start \<noteq> e" by simp
    moreover have "stringValue_loop wc buf start e [] = stringValue_loop wc buf it e pre"
      using assms(4,3) by (rule stringValue_loop_steps)
    moreover have "stringValue_loop wc buf (it + 1 + length ?ds) e (pre @ [?b]) =
        (pre @ [?b]) @ stringValue_loop wc buf (it + 1 + length ?ds) e []"
      by (rule stringValue_loop_output)
    ultimately show ?thesis by (simp add: stringValue_def turn [of pre])
  qed
  ultimately show ?thesis using p [of "output"] by blast
qed

theorem octal_escape_one_byte_witness:
  "rd [BACKSLASH, CHR ''7'', CHR ''7'', CHR ''7''] 0 = BACKSLASH \<and>
   isOctalDigit (rd [BACKSLASH, CHR ''7'', CHR ''7'', CHR ''7''] (0 + 1)) \<and> (0::nat) < 4 \<and>
   (stringValue_step wcrtomb_C [BACKSLASH, CHR ''7'', CHR ''7'', CHR ''7''] ^^ 0) (0, []) =
     (0, []) \<and>
   octal_digits [BACKSLASH, CHR ''7'', CHR ''7'', CHR ''7''] 0 = ''777'' \<and>
   octal_value ''777'' = 511 \<and>
   parseOctal [BACKSLASH, CHR ''7'', CHR ''7'', CHR ''7''] 0 [] = Some (4, [CHR 0xFF]) \<and>
   stringValue wcrtomb_C [BACKSLASH, CHR ''7'', CHR ''7'', CHR ''7''] 0 4 = [CHR 0xFF, NUL] \<and>
   rd [CHR ''a'', BACKSLASH, CHR ''7'', CHR ''7'', CHR ''7''] 1 = BACKSLASH \<and>
   isOctalDigit (rd [CHR ''a'', BACKSLASH, CHR ''7'', CHR ''7'', CHR ''7''] (1 + 1)) \<and>
   (1::nat) < 5 \<and>
   (stringValue_step wcrtomb_C [CHR ''a'', BACKSLASH, CHR ''7'', CHR ''7'', CHR ''7''] ^^ 1)
     (0, []) = (1, ''a'') \<and>
   stringValue wcrtomb_C [CHR ''a'', BACKSLASH, CHR ''7'', CHR ''7'', CHR ''7''] 0 5 =
     [CHR ''a'', CHR 0xFF, NUL]"
proof -
  let ?buf = "[BACKSLASH, CHR ''7'', CHR ''7'', CHR ''7'']"
  let ?mid = "[CHR ''a'', BACKSLASH, CHR ''7'', CHR ''7'', CHR ''7'']"
  have h1: "rd ?buf 0 = BACKSLASH" by (simp add: rd_def)
  have h2: "isOctalDigit (rd ?buf (0 + 1))" by (simp add: rd_def isOctalDigit_def)
  have h3: "(0::nat) < 4" by simp
  have h4: "(stringValue_step wcrtomb_C ?buf ^^ 0) (0, []) = (0, [])" by simp
  have ds: "octal_digits ?buf 0 = ''777''"
    by (simp add: octal_digits_def rd_def isOctalDigit_def upt_conv_Cons)
  have v: "octal_value ''777'' = 511" by (simp add: octal_value_def)
  have n: "0 + 1 + length ''777'' = (4::nat)" by simp
  have "byte (char_of (511 mod 256 :: nat) :: char) = byte (CHR 0xFF)" by simp
  then have b: "(char_of (511 mod 256 :: nat) :: char) = CHR 0xFF"
    by (simp only: of_char_eq_iff)
  have fin: "stringValue_loop wcrtomb_C ?buf 4 4 [] = []"
    by (subst stringValue_loop.simps) simp
  note inst = octal_escape_one_byte [OF h1 h2 h3 h4, of "[]", unfolded ds v n b append_Nil fin]
  from inst have r1: "parseOctal ?buf 0 [] = Some (4, [CHR 0xFF])" by blast
  from inst have r2: "stringValue wcrtomb_C ?buf 0 4 = [CHR 0xFF] @ [NUL]" by blast
  have m1: "rd ?mid 1 = BACKSLASH" by (simp add: rd_def)
  have m2: "isOctalDigit (rd ?mid (1 + 1))" by (simp add: rd_def isOctalDigit_def)
  have m3: "(1::nat) < 5" by simp
  have m4: "(stringValue_step wcrtomb_C ?mid ^^ 1) (0, []) = (1, ''a'')"
    by (simp add: stringValue_step_def rd_def)
  have mds: "octal_digits ?mid 1 = ''777''"
    by (simp add: octal_digits_def rd_def isOctalDigit_def upt_conv_Cons)
  have mn: "1 + 1 + length ''777'' = (5::nat)" by simp
  have mfin: "stringValue_loop wcrtomb_C ?mid 5 5 [] = []"
    by (subst stringValue_loop.simps) simp
  note minst = octal_escape_one_byte [OF m1 m2 m3 m4, of "[]", unfolded mds v mn b append_Nil mfin]
  from minst have r3: "stringValue wcrtomb_C ?mid 0 5 = ''a'' @ [CHR 0xFF] @ [NUL]" by blast
  show ?thesis using h1 h2 h3 h4 ds v r1 r2 m1 m2 m3 m4 r3 by (simp only: simp_thms append.simps)
qed

text \<open>
  C10. \<open>peek(0)\<close> returns a token of kind \<open>END\<close>, whatever the state of the tokenizer
  and the input, and leaves the tokenizer as it was.
\<close>

theorem peek_zero:
  "Tokenizer_peek env 0 tk = Some (Token_of_type END, tk) \<and>
   tok_type (Token_of_type END) = END"
  by (simp add: Tokenizer_peek_def Token_of_type_def)

end
